theory Spec2Isabelle
  imports Main "HOL-Library.Word"
begin

section \<open>Common.h: scalar types and enumerations\<close>

text \<open>
  \<open>OrderId\<close> and \<open>Quantity\<close> are \<open>uint64_t\<close>: 64-bit words, whose \<open>+\<close> and \<open>-\<close> wrap
  and whose order is the unsigned one. \<open>Price\<close> is \<open>int64_t\<close>; the book only stores,
  copies and compares prices and never computes with them, so a price is modelled by the
  integer it denotes. Timestamps (clock readings) are left out: nothing in the book reads
  them.
\<close>

type_synonym OrderId = "64 word"
type_synonym Price = int
type_synonym Quantity = "64 word"

datatype Side = BUY | SELL

datatype OrderType = MARKET | LIMIT | STOP_LOSS | STOP_LIMIT | IOC | FOK

datatype OrderStatus = PENDING | PARTIAL_FILL | FILLED | CANCELLED | REJECTED

section \<open>Order.h, Order.cpp\<close>

record Order =
  orderId :: OrderId
  symbol :: string
  side :: Side
  otype :: OrderType
  price :: Price
  quantity :: Quantity
  remainingQuantity :: Quantity
  stopPrice :: Price
  status :: OrderStatus
  clientId :: string

text \<open>The constructor \<open>Order::Order\<close>.\<close>

definition newOrder ::
  "OrderId \<Rightarrow> string \<Rightarrow> Side \<Rightarrow> OrderType \<Rightarrow> Price \<Rightarrow> Quantity \<Rightarrow> Price \<Rightarrow> Order" where
  "newOrder oid smb sd ty pr qty stp =
     \<lparr>orderId = oid, symbol = smb, side = sd, otype = ty, price = pr, quantity = qty,
      remainingQuantity = qty, stopPrice = stp, status = PENDING, clientId = []\<rparr>"

definition setPrice :: "Price \<Rightarrow> Order \<Rightarrow> Order" where
  "setPrice pr ord = ord\<lparr>price := pr\<rparr>"

definition setQuantity :: "Quantity \<Rightarrow> Order \<Rightarrow> Order" where
  "setQuantity qty ord = ord\<lparr>quantity := qty, remainingQuantity := qty\<rparr>"

definition setStatus :: "OrderStatus \<Rightarrow> Order \<Rightarrow> Order" where
  "setStatus st ord = ord\<lparr>status := st\<rparr>"

definition setClientId :: "string \<Rightarrow> Order \<Rightarrow> Order" where
  "setClientId c ord = ord\<lparr>clientId := c\<rparr>"

definition isFilled :: "Order \<Rightarrow> bool" where
  "isFilled ord = (remainingQuantity ord = 0)"

definition isActive :: "Order \<Rightarrow> bool" where
  "isActive ord = (status ord = PENDING \<or> status ord = PARTIAL_FILL)"

text \<open>\<open>Order::fill\<close>: the quantity is clamped to what remains, then subtracted.\<close>

definition fill :: "Quantity \<Rightarrow> Order \<Rightarrow> Order" where
  "fill q ord =
     (let q' = (if q > remainingQuantity ord then remainingQuantity ord else q);
          r = remainingQuantity ord - q'
      in ord\<lparr>remainingQuantity := r,
             status := (if r = 0 then FILLED
                        else if r < quantity ord then PARTIAL_FILL
                        else status ord)\<rparr>)"

section \<open>Trade.h\<close>

record Trade =
  buyOrderId :: OrderId
  sellOrderId :: OrderId
  tradeSymbol :: string
  tradePrice :: Price
  tradeQuantity :: Quantity

section \<open>Shared orders\<close>

text \<open>
  An \<open>OrderPtr\<close> is a \<open>shared_ptr<Order>\<close>: the book's index, the queue of a level and
  the caller hold the same object. The store maps each pointer to the object it points
  to; every write through a pointer is an update of the store.
\<close>

type_synonym OrderPtr = nat
type_synonym heap = "OrderPtr \<Rightarrow> Order"

section \<open>OrderBook.h, OrderBook.cpp: PriceLevel\<close>

text \<open>
  \<open>orders_\<close> is a \<open>std::list\<close>. Each element of the model's list is a node of that list:
  the node's identity (what a list iterator denotes) paired with the pointer stored in
  it. \<open>nodes\<close> counts the nodes the list has allocated, so the node of the next
  \<open>push_back\<close> differs from every earlier one. \<open>lvlOrderMap\<close> is \<open>orderMap_\<close>, from
  an order id to an iterator. The field \<open>price_\<close> is left out: the levels of a book are
  created by \<open>operator[]\<close> of \<open>std::map\<close>, which passes no price, and no function of
  the book reads the field.
\<close>

record PriceLevel =
  totalQuantity :: Quantity
  orders :: "(nat \<times> OrderPtr) list"
  lvlOrderMap :: "OrderId \<rightharpoonup> nat"
  nodes :: nat

definition emptyLevel :: PriceLevel where
  "emptyLevel = \<lparr>totalQuantity = 0, orders = [], lvlOrderMap = Map.empty, nodes = 0\<rparr>"

definition isEmpty :: "PriceLevel \<Rightarrow> bool" where
  "isEmpty lvl = (orders lvl = [])"

definition PriceLevel_addOrder :: "heap \<Rightarrow> OrderPtr \<Rightarrow> PriceLevel \<Rightarrow> PriceLevel" where
  "PriceLevel_addOrder h p lvl =
     lvl\<lparr>orders := orders lvl @ [(nodes lvl, p)],
         lvlOrderMap := (lvlOrderMap lvl)(orderId (h p) \<mapsto> nodes lvl),
         totalQuantity := totalQuantity lvl + remainingQuantity (h p),
         nodes := Suc (nodes lvl)\<rparr>"

text \<open>
  \<open>PriceLevel::removeOrder\<close> dereferences and erases the iterator stored for the id. When
  the node of that iterator is no longer in the list the behaviour of the C++ is
  undefined: the model returns \<open>None\<close>.
\<close>

definition PriceLevel_removeOrder :: "heap \<Rightarrow> OrderId \<Rightarrow> PriceLevel \<Rightarrow> PriceLevel option" where
  "PriceLevel_removeOrder h oid lvl =
     (case lvlOrderMap lvl oid of
        None \<Rightarrow> Some lvl
      | Some n \<Rightarrow>
          (case map_of (orders lvl) n of
             None \<Rightarrow> None
           | Some p \<Rightarrow>
               Some (lvl\<lparr>totalQuantity := totalQuantity lvl - remainingQuantity (h p),
                         orders := filter (\<lambda>e. fst e \<noteq> n) (orders lvl),
                         lvlOrderMap := (lvlOrderMap lvl)(oid := None)\<rparr>)))"

section \<open>OrderBook.h, OrderBook.cpp: OrderBook\<close>

text \<open>
  A \<open>std::map\<close> from prices to levels is the list of its entries in iteration order:
  \<open>bids_\<close> (ordered by \<open>std::greater\<close>) from the highest price down, \<open>asks_\<close> (ordered
  by \<open>std::less\<close>) from the lowest price up. \<open>levels_put\<close> writes an entry at the place
  the ordering \<open>prec\<close> gives its key, \<open>levels_erase\<close> removes the entry of a key.
\<close>

type_synonym levels = "(Price \<times> PriceLevel) list"

fun levels_put :: "(Price \<Rightarrow> Price \<Rightarrow> bool) \<Rightarrow> Price \<Rightarrow> PriceLevel \<Rightarrow> levels \<Rightarrow> levels" where
  "levels_put prec k v [] = [(k, v)]"
| "levels_put prec k v ((k', v') # m) =
     (if k = k' then (k, v) # m
      else if prec k k' then (k, v) # (k', v') # m
      else (k', v') # levels_put prec k v m)"

definition levels_erase :: "Price \<Rightarrow> levels \<Rightarrow> levels" where
  "levels_erase k m = filter (\<lambda>e. fst e \<noteq> k) m"

text \<open>\<open>levels[k]\<close>: the level stored at \<open>k\<close>, a fresh empty one when there is none.\<close>

definition levels_at :: "levels \<Rightarrow> Price \<Rightarrow> PriceLevel" where
  "levels_at m k = (case map_of m k of None \<Rightarrow> emptyLevel | Some lvl \<Rightarrow> lvl)"

definition greaterP :: "Price \<Rightarrow> Price \<Rightarrow> bool" where
  "greaterP a b = (b < a)"

definition lessP :: "Price \<Rightarrow> Price \<Rightarrow> bool" where
  "lessP a b = (a < b)"

record OrderBook =
  bookSymbol :: string
  bids :: levels
  asks :: levels
  orderMap :: "OrderId \<rightharpoonup> OrderPtr"

definition newOrderBook :: "string \<Rightarrow> OrderBook" where
  "newOrderBook smb = \<lparr>bookSymbol = smb, bids = [], asks = [], orderMap = Map.empty\<rparr>"

definition addOrder :: "OrderPtr \<Rightarrow> OrderBook \<times> heap \<Rightarrow> OrderBook \<times> heap" where
  "addOrder p bh =
     (let b = fst bh; h = snd bh;
          b1 = b\<lparr>orderMap := (orderMap b)(orderId (h p) \<mapsto> p)\<rparr>
      in if side (h p) = BUY
         then (b1\<lparr>bids := levels_put greaterP (price (h p))
                     (PriceLevel_addOrder h p (levels_at (bids b1) (price (h p)))) (bids b1)\<rparr>, h)
         else (b1\<lparr>asks := levels_put lessP (price (h p))
                     (PriceLevel_addOrder h p (levels_at (asks b1) (price (h p)))) (asks b1)\<rparr>, h))"

text \<open>
  The block that \<open>cancelOrder\<close> and \<open>modifyOrder\<close> both run on the side of the order:
  find the level of the price; remove the order from it; erase the level when it has
  become empty. \<open>None\<close> is the undefined behaviour of \<open>PriceLevel::removeOrder\<close>.
\<close>

definition removeFromSide ::
  "(Price \<Rightarrow> Price \<Rightarrow> bool) \<Rightarrow> heap \<Rightarrow> OrderId \<Rightarrow> Price \<Rightarrow> levels \<Rightarrow> levels option" where
  "removeFromSide prec h oid pr m =
     (case map_of m pr of
        None \<Rightarrow> Some m
      | Some lvl \<Rightarrow>
          (case PriceLevel_removeOrder h oid lvl of
             None \<Rightarrow> None
           | Some lvl' \<Rightarrow>
               Some (if isEmpty lvl' then levels_erase pr m
                     else levels_put prec pr lvl' m)))"

definition cancelOrder :: "OrderId \<Rightarrow> OrderBook \<times> heap \<Rightarrow> (bool \<times> OrderBook \<times> heap) option" where
  "cancelOrder oid bh =
     (let b = fst bh; h = snd bh in
      case orderMap b oid of
        None \<Rightarrow> Some (False, b, h)
      | Some p \<Rightarrow>
          (let h1 = h(p := setStatus CANCELLED (h p)) in
           if side (h1 p) = BUY
           then (case removeFromSide greaterP h1 oid (price (h1 p)) (bids b) of
                   None \<Rightarrow> None
                 | Some m \<Rightarrow> Some (True, b\<lparr>bids := m, orderMap := (orderMap b)(oid := None)\<rparr>, h1))
           else (case removeFromSide lessP h1 oid (price (h1 p)) (asks b) of
                   None \<Rightarrow> None
                 | Some m \<Rightarrow> Some (True, b\<lparr>asks := m, orderMap := (orderMap b)(oid := None)\<rparr>, h1))))"

definition modifyOrder ::
  "OrderId \<Rightarrow> Price \<Rightarrow> Quantity \<Rightarrow> OrderBook \<times> heap \<Rightarrow> (bool \<times> OrderBook \<times> heap) option" where
  "modifyOrder oid newPrice newQuantity bh =
     (let b = fst bh; h = snd bh in
      case orderMap b oid of
        None \<Rightarrow> Some (False, b, h)
      | Some p \<Rightarrow>
          (let h1 = h(p := setStatus PENDING (setQuantity newQuantity (setPrice newPrice (h p)))) in
           if side (h p) = BUY
           then (case removeFromSide greaterP h oid (price (h p)) (bids b) of
                   None \<Rightarrow> None
                 | Some m \<Rightarrow>
                     Some (True,
                           b\<lparr>bids := levels_put greaterP newPrice
                                (PriceLevel_addOrder h1 p (levels_at m newPrice)) m\<rparr>, h1))
           else (case removeFromSide lessP h oid (price (h p)) (asks b) of
                   None \<Rightarrow> None
                 | Some m \<Rightarrow>
                     Some (True,
                           b\<lparr>asks := levels_put lessP newPrice
                                (PriceLevel_addOrder h1 p (levels_at m newPrice)) m\<rparr>, h1))))"

definition getOrder :: "OrderId \<Rightarrow> OrderBook \<Rightarrow> OrderPtr option" where
  "getOrder oid b = orderMap b oid"

text \<open>
  One pass of the inner loop of \<open>executeMatches\<close>, for the incoming order \<open>p\<close> and the
  resting order \<open>mp\<close> at the front: the fill quantity, the trade, and the two calls
  \<open>order->fill(fillQty); matchingOrder->fill(fillQty)\<close>, in this order, on the store.
\<close>

definition fillQty :: "heap \<Rightarrow> OrderPtr \<Rightarrow> OrderPtr \<Rightarrow> Quantity" where
  "fillQty h p mp = min (remainingQuantity (h p)) (remainingQuantity (h mp))"

definition makeTrade :: "string \<Rightarrow> heap \<Rightarrow> OrderPtr \<Rightarrow> OrderPtr \<Rightarrow> Trade" where
  "makeTrade smb h p mp =
     \<lparr>buyOrderId = (if side (h p) = BUY then orderId (h p) else orderId (h mp)),
      sellOrderId = (if side (h p) = SELL then orderId (h p) else orderId (h mp)),
      tradeSymbol = smb,
      tradePrice = price (h mp),
      tradeQuantity = fillQty h p mp\<rparr>"

definition fillBoth :: "heap \<Rightarrow> OrderPtr \<Rightarrow> OrderPtr \<Rightarrow> heap" where
  "fillBoth h p mp =
     (let h1 = h(p := fill (fillQty h p mp) (h p))
      in h1(mp := fill (fillQty h p mp) (h1 mp)))"

text \<open>
  The inner loop of \<open>executeMatches\<close>, over the nodes of one level from the front. The
  book's \<open>orderMap_\<close> is passed along because a filled resting order is erased from it.
  A node that is not filled is stepped over (\<open>++orderIt\<close>) and stays in the list.
\<close>

fun executeMatches_queue ::
  "string \<Rightarrow> OrderPtr \<Rightarrow> (nat \<times> OrderPtr) list \<Rightarrow> heap \<Rightarrow> (OrderId \<rightharpoonup> OrderPtr) \<Rightarrow>
   Trade list \<times> (nat \<times> OrderPtr) list \<times> heap \<times> (OrderId \<rightharpoonup> OrderPtr)" where
  "executeMatches_queue smb p [] h om = ([], [], h, om)"
| "executeMatches_queue smb p (e # q) h om =
     (if 0 < remainingQuantity (h p) then
        if isFilled (fillBoth h p (snd e) (snd e))
        then (case executeMatches_queue smb p q (fillBoth h p (snd e))
                     (om(orderId (fillBoth h p (snd e) (snd e)) := None)) of
                (ts, q', h', om') \<Rightarrow> (makeTrade smb h p (snd e) # ts, q', h', om'))
        else (case executeMatches_queue smb p q (fillBoth h p (snd e)) om of
                (ts, q', h', om') \<Rightarrow> (makeTrade smb h p (snd e) # ts, e # q', h', om'))
      else ([], e # q, h, om))"

text \<open>
  The outer loop of \<open>executeMatches\<close>. The two overloads, over \<open>asks_\<close> (lowest price
  first) and over \<open>bids_\<close> (highest price first), have the same body but for the price
  check that breaks the loop, which is the parameter \<open>tooFar\<close> here. The parameter
  \<open>fillEntireOrder\<close> is not read by either body. A level left empty by the inner loop
  is erased from the map.
\<close>

fun executeMatches_levels ::
  "(Order \<Rightarrow> Price \<Rightarrow> bool) \<Rightarrow> string \<Rightarrow> OrderPtr \<Rightarrow> bool \<Rightarrow> levels \<Rightarrow> heap \<Rightarrow>
   (OrderId \<rightharpoonup> OrderPtr) \<Rightarrow> Trade list \<times> levels \<times> heap \<times> (OrderId \<rightharpoonup> OrderPtr)" where
  "executeMatches_levels tooFar smb p fillEntireOrder [] h om = ([], [], h, om)"
| "executeMatches_levels tooFar smb p fillEntireOrder (kl # m) h om =
     (if 0 < remainingQuantity (h p) then
        if tooFar (h p) (fst kl)
        then ([], kl # m, h, om)
        else (case executeMatches_queue smb p (orders (snd kl)) h om of
                (ts, q, h1, om1) \<Rightarrow>
                  (case executeMatches_levels tooFar smb p fillEntireOrder m h1 om1 of
                     (ts', m', h2, om2) \<Rightarrow>
                       (ts @ ts',
                        (if isEmpty ((snd kl)\<lparr>orders := q\<rparr>) then m'
                         else (fst kl, (snd kl)\<lparr>orders := q\<rparr>) # m'),
                        h2, om2)))
      else ([], kl # m, h, om))"

text \<open>The check of the overload for \<open>asks_\<close>: \<open>Ask price too high\<close>.\<close>

definition askTooHigh :: "Order \<Rightarrow> Price \<Rightarrow> bool" where
  "askTooHigh ord k = (otype ord = LIMIT \<and> side ord = BUY \<and> k > price ord)"

text \<open>The check of the overload for \<open>bids_\<close>: \<open>Bid price too low\<close>.\<close>

definition bidTooLow :: "Order \<Rightarrow> Price \<Rightarrow> bool" where
  "bidTooLow ord k = (otype ord = LIMIT \<and> side ord = SELL \<and> k < price ord)"

definition executeMatches_asks ::
  "string \<Rightarrow> OrderPtr \<Rightarrow> bool \<Rightarrow> levels \<Rightarrow> heap \<Rightarrow> (OrderId \<rightharpoonup> OrderPtr) \<Rightarrow>
   Trade list \<times> levels \<times> heap \<times> (OrderId \<rightharpoonup> OrderPtr)" where
  "executeMatches_asks = executeMatches_levels askTooHigh"

definition executeMatches_bids ::
  "string \<Rightarrow> OrderPtr \<Rightarrow> bool \<Rightarrow> levels \<Rightarrow> heap \<Rightarrow> (OrderId \<rightharpoonup> OrderPtr) \<Rightarrow>
   Trade list \<times> levels \<times> heap \<times> (OrderId \<rightharpoonup> OrderPtr)" where
  "executeMatches_bids = executeMatches_levels bidTooLow"

text \<open>
  The two overloads of \<open>canFillEntireOrder\<close>, which again differ in the price check
  only; here the check is made for the types LIMIT and FOK. The third argument is the
  running \<open>availableQty\<close>, which starts at 0.
\<close>

fun canFillEntireOrder_levels :: "(Order \<Rightarrow> Price \<Rightarrow> bool) \<Rightarrow> Order \<Rightarrow> Quantity \<Rightarrow> levels \<Rightarrow> bool" where
  "canFillEntireOrder_levels tooFar ord availableQty [] = False"
| "canFillEntireOrder_levels tooFar ord availableQty (kl # m) =
     (if tooFar ord (fst kl) then False
      else if availableQty + totalQuantity (snd kl) \<ge> remainingQuantity ord then True
      else canFillEntireOrder_levels tooFar ord (availableQty + totalQuantity (snd kl)) m)"

definition canFillAskTooHigh :: "Order \<Rightarrow> Price \<Rightarrow> bool" where
  "canFillAskTooHigh ord k =
     ((otype ord = LIMIT \<or> otype ord = FOK) \<and> side ord = BUY \<and> k > price ord)"

definition canFillBidTooLow :: "Order \<Rightarrow> Price \<Rightarrow> bool" where
  "canFillBidTooLow ord k =
     ((otype ord = LIMIT \<or> otype ord = FOK) \<and> side ord = SELL \<and> k < price ord)"

definition canFillEntireOrder_asks :: "Order \<Rightarrow> levels \<Rightarrow> bool" where
  "canFillEntireOrder_asks ord m = canFillEntireOrder_levels canFillAskTooHigh ord 0 m"

definition canFillEntireOrder_bids :: "Order \<Rightarrow> levels \<Rightarrow> bool" where
  "canFillEntireOrder_bids ord m = canFillEntireOrder_levels canFillBidTooLow ord 0 m"

text \<open>
  Every \<open>match...Order\<close> function starts with the same choice: a BUY order is matched
  against \<open>asks_\<close>, a SELL order against \<open>bids_\<close>.
\<close>

definition executeOpposite ::
  "OrderPtr \<Rightarrow> bool \<Rightarrow> OrderBook \<times> heap \<Rightarrow> Trade list \<times> OrderBook \<times> heap" where
  "executeOpposite p fillEntireOrder bh =
     (let b = fst bh; h = snd bh in
      if side (h p) = BUY
      then (case executeMatches_asks (bookSymbol b) p fillEntireOrder (asks b) h (orderMap b) of
              (ts, m, h1, om1) \<Rightarrow> (ts, b\<lparr>asks := m, orderMap := om1\<rparr>, h1))
      else (case executeMatches_bids (bookSymbol b) p fillEntireOrder (bids b) h (orderMap b) of
              (ts, m, h1, om1) \<Rightarrow> (ts, b\<lparr>bids := m, orderMap := om1\<rparr>, h1)))"

definition matchMarketOrder :: "OrderPtr \<Rightarrow> OrderBook \<times> heap \<Rightarrow> Trade list \<times> OrderBook \<times> heap" where
  "matchMarketOrder p bh =
     (case executeOpposite p False bh of
        (ts, b1, h1) \<Rightarrow>
          (ts, b1, if 0 < remainingQuantity (h1 p) then h1(p := setStatus CANCELLED (h1 p)) else h1))"

definition matchLimitOrder :: "OrderPtr \<Rightarrow> OrderBook \<times> heap \<Rightarrow> Trade list \<times> OrderBook \<times> heap" where
  "matchLimitOrder p bh =
     (case executeOpposite p False bh of
        (ts, b1, h1) \<Rightarrow>
          if 0 < remainingQuantity (h1 p) \<and> isActive (h1 p)
          then (if side (h1 p) = BUY
                then (ts, b1\<lparr>bids := levels_put greaterP (price (h1 p))
                                (PriceLevel_addOrder h1 p (levels_at (bids b1) (price (h1 p)))) (bids b1),
                             orderMap := (orderMap b1)(orderId (h1 p) \<mapsto> p)\<rparr>, h1)
                else (ts, b1\<lparr>asks := levels_put lessP (price (h1 p))
                                (PriceLevel_addOrder h1 p (levels_at (asks b1) (price (h1 p)))) (asks b1),
                             orderMap := (orderMap b1)(orderId (h1 p) \<mapsto> p)\<rparr>, h1))
          else (ts, b1, h1))"

definition matchIOCOrder :: "OrderPtr \<Rightarrow> OrderBook \<times> heap \<Rightarrow> Trade list \<times> OrderBook \<times> heap" where
  "matchIOCOrder p bh =
     (case executeOpposite p False bh of
        (ts, b1, h1) \<Rightarrow>
          (ts, b1, if 0 < remainingQuantity (h1 p) then h1(p := setStatus CANCELLED (h1 p)) else h1))"

definition matchFOKOrder :: "OrderPtr \<Rightarrow> OrderBook \<times> heap \<Rightarrow> Trade list \<times> OrderBook \<times> heap" where
  "matchFOKOrder p bh =
     (let b = fst bh; h = snd bh;
          canFill = (if side (h p) = BUY then canFillEntireOrder_asks (h p) (asks b)
                     else canFillEntireOrder_bids (h p) (bids b))
      in if \<not> canFill then ([], b, h(p := setStatus CANCELLED (h p)))
         else executeOpposite p True bh)"

definition matchOrder :: "OrderPtr \<Rightarrow> OrderBook \<times> heap \<Rightarrow> Trade list \<times> OrderBook \<times> heap" where
  "matchOrder p bh =
     (case otype (snd bh p) of
        MARKET \<Rightarrow> matchMarketOrder p bh
      | LIMIT \<Rightarrow> matchLimitOrder p bh
      | IOC \<Rightarrow> matchIOCOrder p bh
      | FOK \<Rightarrow> matchFOKOrder p bh
      | STOP_LOSS \<Rightarrow> matchLimitOrder p bh
      | STOP_LIMIT \<Rightarrow> matchLimitOrder p bh)"

definition getBestBid :: "OrderBook \<Rightarrow> Price" where
  "getBestBid b = (case bids b of [] \<Rightarrow> 0 | e # _ \<Rightarrow> fst e)"

definition getBestAsk :: "OrderBook \<Rightarrow> Price" where
  "getBestAsk b = (case asks b of [] \<Rightarrow> 0 | e # _ \<Rightarrow> fst e)"

definition getBidQuantityAtLevel :: "Price \<Rightarrow> OrderBook \<Rightarrow> Quantity" where
  "getBidQuantityAtLevel pr b = (case map_of (bids b) pr of None \<Rightarrow> 0 | Some lvl \<Rightarrow> totalQuantity lvl)"

definition getAskQuantityAtLevel :: "Price \<Rightarrow> OrderBook \<Rightarrow> Quantity" where
  "getAskQuantityAtLevel pr b = (case map_of (asks b) pr of None \<Rightarrow> 0 | Some lvl \<Rightarrow> totalQuantity lvl)"

section \<open>MatchingEngine.h, MatchingEngine.cpp\<close>

text \<open>
  The engine owns the books, by symbol, and the map from order ids to symbols. The
  counters are \<open>std::atomic\<close> 64-bit values. \<open>store\<close> holds the \<open>Order\<close> objects, and
  \<open>allocated\<close> counts the objects \<open>std::make_shared\<close> has created: the next object gets
  a pointer no earlier object has. No callback is installed (the state a new engine is
  in), so \<open>notifyOrder\<close> and \<open>notifyTrade\<close> do nothing.
\<close>

record MatchingEngineCore =
  orderBooks :: "string \<rightharpoonup> OrderBook"
  orderToSymbol :: "OrderId \<rightharpoonup> string"
  nextOrderId :: OrderId
  totalOrders :: "64 word"
  totalTrades :: "64 word"
  store :: heap
  allocated :: nat

definition newEngine :: "heap \<Rightarrow> MatchingEngineCore" where
  "newEngine h = \<lparr>orderBooks = Map.empty, orderToSymbol = Map.empty, nextOrderId = 1,
                  totalOrders = 0, totalTrades = 0, store = h, allocated = 0\<rparr>"

text \<open>\<open>getOrCreateOrderBook\<close>: the engine with the book registered, and the book.\<close>

definition getOrCreateOrderBook :: "string \<Rightarrow> MatchingEngineCore \<Rightarrow> MatchingEngineCore \<times> OrderBook" where
  "getOrCreateOrderBook smb e =
     (case orderBooks e smb of
        Some b \<Rightarrow> (e, b)
      | None \<Rightarrow> (e\<lparr>orderBooks := (orderBooks e)(smb \<mapsto> newOrderBook smb)\<rparr>, newOrderBook smb))"

definition submitOrder ::
  "string \<Rightarrow> Side \<Rightarrow> OrderType \<Rightarrow> Price \<Rightarrow> Quantity \<Rightarrow> string \<Rightarrow> Price \<Rightarrow>
   MatchingEngineCore \<Rightarrow> OrderId \<times> MatchingEngineCore" where
  "submitOrder smb sd ty pr qty cid stp e =
     (let oid = nextOrderId e;
          p = allocated e;
          e1 = e\<lparr>nextOrderId := nextOrderId e + 1, totalOrders := totalOrders e + 1,
                 store := (store e)(p := setClientId cid (newOrder oid smb sd ty pr qty stp)),
                 allocated := Suc p\<rparr>;
          e2 = fst (getOrCreateOrderBook smb e1);
          book = snd (getOrCreateOrderBook smb e1);
          e3 = e2\<lparr>orderToSymbol := (orderToSymbol e2)(oid \<mapsto> smb)\<rparr>
      in case matchOrder p (book, store e3) of
           (ts, b1, h1) \<Rightarrow>
             (oid, e3\<lparr>orderBooks := (orderBooks e3)(smb \<mapsto> b1),
                      totalTrades := totalTrades e3 + of_nat (length ts),
                      store := h1\<rparr>))"

text \<open>
  \<open>cancelOrder\<close>, \<open>modifyOrder\<close> and \<open>getOrder\<close> of the engine resolve the symbol of the
  id, then the book of the symbol, and call the book. \<open>None\<close> is the undefined behaviour
  that the book's call can run into.
\<close>

definition Engine_cancelOrder :: "OrderId \<Rightarrow> MatchingEngineCore \<Rightarrow> (bool \<times> MatchingEngineCore) option" where
  "Engine_cancelOrder oid e =
     (case orderToSymbol e oid of
        None \<Rightarrow> Some (False, e)
      | Some smb \<Rightarrow>
          (case orderBooks e smb of
             None \<Rightarrow> Some (False, e)
           | Some b \<Rightarrow>
               (case cancelOrder oid (b, store e) of
                  None \<Rightarrow> None
                | Some (success, b1, h1) \<Rightarrow>
                    Some (success,
                          e\<lparr>orderBooks := (orderBooks e)(smb \<mapsto> b1), store := h1,
                            orderToSymbol := (if success then (orderToSymbol e)(oid := None)
                                              else orderToSymbol e)\<rparr>))))"

definition Engine_modifyOrder ::
  "OrderId \<Rightarrow> Price \<Rightarrow> Quantity \<Rightarrow> MatchingEngineCore \<Rightarrow> (bool \<times> MatchingEngineCore) option" where
  "Engine_modifyOrder oid newPrice newQuantity e =
     (case orderToSymbol e oid of
        None \<Rightarrow> Some (False, e)
      | Some smb \<Rightarrow>
          (case orderBooks e smb of
             None \<Rightarrow> Some (False, e)
           | Some b \<Rightarrow>
               (case modifyOrder oid newPrice newQuantity (b, store e) of
                  None \<Rightarrow> None
                | Some (success, b1, h1) \<Rightarrow>
                    Some (success, e\<lparr>orderBooks := (orderBooks e)(smb \<mapsto> b1), store := h1\<rparr>))))"

definition Engine_getOrder :: "OrderId \<Rightarrow> MatchingEngineCore \<Rightarrow> OrderPtr option" where
  "Engine_getOrder oid e =
     (case orderToSymbol e oid of
        None \<Rightarrow> None
      | Some smb \<Rightarrow>
          (case orderBooks e smb of
             None \<Rightarrow> None
           | Some b \<Rightarrow> getOrder oid b))"

section \<open>Observations and example states\<close>

text \<open>The sum of what remains of the orders in the queue of a level.\<close>

definition queueQuantity :: "heap \<Rightarrow> PriceLevel \<Rightarrow> Quantity" where
  "queueQuantity h lvl = sum_list (map (\<lambda>e. remainingQuantity (h (snd e))) (orders lvl))"

definition aggregateConsistent :: "OrderBook \<times> heap \<Rightarrow> bool" where
  "aggregateConsistent bh =
     list_all (\<lambda>e. totalQuantity (snd e) = queueQuantity (snd bh) (snd e))
       (bids (fst bh) @ asks (fst bh))"

text \<open>A store in which every pointer holds an empty order, to build examples on.\<close>

definition blank :: heap where
  "blank = (\<lambda>_. newOrder 0 [] BUY LIMIT 0 0 0)"

text \<open>
  The test \<open>PartialFill\<close> of \<open>tests/test_orderbook.cpp\<close>: a SELL LIMIT of 100 at 150.00
  is added, then a BUY LIMIT of 50 at 150.00 is matched.
\<close>

definition partialFill_store :: heap where
  "partialFill_store =
     blank(1 := newOrder 1 ''AAPL'' SELL LIMIT 1500000 100 0,
           2 := newOrder 2 ''AAPL'' BUY LIMIT 1500000 50 0)"

definition partialFill_result :: "Trade list \<times> OrderBook \<times> heap" where
  "partialFill_result = matchOrder 2 (addOrder 1 (newOrderBook ''AAPL'', partialFill_store))"

text \<open>A SELL LIMIT of 100 rests at 150.00; a BUY order of 100 priced 140.00 arrives.\<close>

definition below_store :: "OrderType \<Rightarrow> heap" where
  "below_store ty =
     blank(1 := newOrder 1 ''AAPL'' SELL LIMIT 1500000 100 0,
           2 := newOrder 2 ''AAPL'' BUY ty 1400000 100 0)"

definition below_book :: "OrderType \<Rightarrow> OrderBook \<times> heap" where
  "below_book ty = snd (matchOrder 1 (newOrderBook ''AAPL'', below_store ty))"

definition below_result :: "OrderType \<Rightarrow> Trade list \<times> OrderBook \<times> heap" where
  "below_result ty = matchOrder 2 (below_book ty)"

text \<open>
  A SELL LIMIT of 100 rests at 150.00, a BUY LIMIT of 50 takes half of it, then a BUY FOK
  of 100 at 150.00 arrives: 50 are on offer.
\<close>

definition fok_store :: heap where
  "fok_store =
     blank(1 := newOrder 1 ''AAPL'' SELL LIMIT 1500000 100 0,
           2 := newOrder 2 ''AAPL'' BUY LIMIT 1500000 50 0,
           3 := newOrder 3 ''AAPL'' BUY FOK 1500000 100 0)"

definition fok_result :: "Trade list \<times> OrderBook \<times> heap" where
  "fok_result =
     matchOrder 3 (snd (matchOrder 2 (snd (matchOrder 1 (newOrderBook ''AAPL'', fok_store)))))"

text \<open>
  The pointers queued on one side of the book, in the order of priority: level by level
  in iteration order of the map, each queue from the front.
\<close>

definition queued :: "levels \<Rightarrow> OrderPtr list" where
  "queued m = concat (map (\<lambda>e. map snd (orders (snd e))) m)"

text \<open>The side an incoming order is matched against.\<close>

definition oppositeQueue :: "OrderPtr \<Rightarrow> OrderBook \<times> heap \<Rightarrow> OrderPtr list" where
  "oppositeQueue p bh = queued (if side (snd bh p) = BUY then asks (fst bh) else bids (fst bh))"

text \<open>The id a trade records for the resting order, given the side of the incoming one.\<close>

definition passiveId :: "Side \<Rightarrow> Trade \<Rightarrow> OrderId" where
  "passiveId sd t = (if sd = BUY then sellOrderId t else buyOrderId t)"

text \<open>
  The test \<open>PassiveOrderPriceUsed\<close>: a SELL LIMIT of 100 rests at 150.00 and a BUY LIMIT
  of 50 at 152.00 is matched.
\<close>

definition improve_store :: heap where
  "improve_store =
     blank(1 := newOrder 1 ''AAPL'' SELL LIMIT 1500000 100 0,
           2 := newOrder 2 ''AAPL'' BUY LIMIT 1520000 50 0)"

definition improve_result :: "Trade list \<times> OrderBook \<times> heap" where
  "improve_result = matchOrder 2 (addOrder 1 (newOrderBook ''AAPL'', improve_store))"

text \<open>
  Scenario S3 (the test \<open>PriceTimePriority\<close>): three SELL LIMIT orders A, B, C of 100 at
  150.00 are added in this order, with ids 1, 2, 3; a BUY LIMIT of 150 at 150.00 is
  matched.
\<close>

definition fifo_store :: heap where
  "fifo_store =
     blank(1 := newOrder 1 ''AAPL'' SELL LIMIT 1500000 100 0,
           2 := newOrder 2 ''AAPL'' SELL LIMIT 1500000 100 0,
           3 := newOrder 3 ''AAPL'' SELL LIMIT 1500000 100 0,
           4 := newOrder 4 ''AAPL'' BUY LIMIT 1500000 150 0)"

definition fifo_book :: "OrderBook \<times> heap" where
  "fifo_book = addOrder 3 (addOrder 2 (addOrder 1 (newOrderBook ''AAPL'', fifo_store)))"





text \<open>An order rests in a book when a queue of the book or the book's index holds it.\<close>

definition restsIn :: "OrderBook \<Rightarrow> OrderPtr \<Rightarrow> bool" where
  "restsIn b p =
     (p \<in> set (queued (bids b)) \<or> p \<in> set (queued (asks b)) \<or> p \<in> ran (orderMap b))"










text \<open>
  The book is not crossed: a side is empty, or the best bid is below the best ask.
\<close>

definition uncrossed :: "OrderBook \<Rightarrow> bool" where
  "uncrossed b = (bids b = [] \<or> asks b = [] \<or> getBestBid b < getBestAsk b)"

text \<open>
  What \<open>std::map\<close> guarantees of its entries: in iteration order the keys of \<open>bids_\<close>
  strictly fall and the keys of \<open>asks_\<close> strictly rise.
\<close>

definition orderedLevels :: "OrderBook \<Rightarrow> bool" where
  "orderedLevels b =
     (sorted_wrt greaterP (map fst (bids b)) \<and> sorted_wrt lessP (map fst (asks b)))"

text \<open>
  A BUY LIMIT of 10 rests at 100.00 and a SELL LIMIT of 10 at 110.00; the bid is then
  modified to 120.00. Order 3, a SELL LIMIT of 4 at 90.00, is for matching against
  the book as it is before the modification.
\<close>

definition cross_store :: heap where
  "cross_store =
     blank(1 := newOrder 1 ''AAPL'' BUY LIMIT 1000000 10 0,
           2 := newOrder 2 ''AAPL'' SELL LIMIT 1100000 10 0,
           3 := newOrder 3 ''AAPL'' SELL LIMIT 900000 4 0)"

definition cross_book :: "OrderBook \<times> heap" where
  "cross_book = snd (matchOrder 2 (snd (matchOrder 1 (newOrderBook ''AAPL'', cross_store))))"

definition cross_result :: "(bool \<times> OrderBook \<times> heap) option" where
  "cross_result = modifyOrder 1 1200000 10 cross_book"

text \<open>
  What can be seen of one side of a book: its levels in iteration order, each with its
  price, its aggregate quantity and its queue of orders.
\<close>

definition levelsView :: "levels \<Rightarrow> (Price \<times> Quantity \<times> OrderPtr list) list" where
  "levelsView m = map (\<lambda>e. (fst e, totalQuantity (snd e), map snd (orders (snd e)))) m"

text \<open>No level of the book has an empty queue.\<close>

definition noEmptyLevels :: "OrderBook \<Rightarrow> bool" where
  "noEmptyLevels b = list_all (\<lambda>e. \<not> isEmpty (snd e)) (bids b @ asks b)"

text \<open>
  In every level the nodes in the list are among the nodes the list has allocated: the
  node of the next \<open>push_back\<close> is new.
\<close>

definition nodesAllocated :: "OrderBook \<Rightarrow> bool" where
  "nodesAllocated b =
     list_all (\<lambda>e. list_all (\<lambda>n. fst n < nodes (snd e)) (orders (snd e))) (bids b @ asks b)"

text \<open>
  The form in which the operations of the book keep it: the three properties above.
\<close>

definition levelOk :: "PriceLevel \<Rightarrow> bool" where
  "levelOk lvl = (orders lvl \<noteq> [] \<and> list_all (\<lambda>n. fst n < nodes lvl) (orders lvl))"

definition wellFormed :: "OrderBook \<Rightarrow> bool" where
  "wellFormed b = (orderedLevels b \<and> noEmptyLevels b \<and> nodesAllocated b)"

text \<open>
  The book of scenario S3 with its three asks at 150.00, and two orders that are not in
  it: order 5, a SELL LIMIT of 70 at 150.00 (a level that exists), and order 6, a BUY
  LIMIT of 20 at 149.00 (a level that does not).
\<close>

definition round_state :: "OrderBook \<times> heap" where
  "round_state =
     (fst fifo_book,
      (snd fifo_book)(5 := newOrder 5 ''AAPL'' SELL LIMIT 1500000 70 0,
                      6 := newOrder 6 ''AAPL'' BUY LIMIT 1490000 20 0))"

text \<open>
  The states of the engine: a new engine, and what \<open>submitOrder\<close>, \<open>cancelOrder\<close> and
  \<open>modifyOrder\<close> make of a state. \<open>nextOrderId\<close> starts at 1 and is a 64-bit counter;
  the states considered are those in which it has not wrapped around to 0, so that no
  two orders have been given the same id.
\<close>

inductive reachable :: "MatchingEngineCore \<Rightarrow> bool" where
  init: "reachable (newEngine h)"
| submit: "reachable e \<Longrightarrow> nextOrderId e \<noteq> 0 \<Longrightarrow>
     reachable (snd (submitOrder smb sd ty pr qty cid stp e))"
| cancel: "reachable e \<Longrightarrow> Engine_cancelOrder oid e = Some (r, e') \<Longrightarrow> reachable e'"
| modify: "reachable e \<Longrightarrow> Engine_modifyOrder oid pr qty e = Some (r, e') \<Longrightarrow> reachable e'"

text \<open>
  What holds of the book of symbol \<open>smb\<close> in every such state, \<open>n\<close> being the number of
  orders created so far: an indexed order was created by the engine, is indexed under
  its own id, is not FILLED and is of this symbol; a queued order was created by the
  engine and is of this symbol.
\<close>

definition bookInv :: "nat \<Rightarrow> heap \<Rightarrow> string \<Rightarrow> OrderBook \<Rightarrow> bool" where
  "bookInv n h smb b =
     ((\<forall>oid q. orderMap b oid = Some q \<longrightarrow>
         q < n \<and> orderId (h q) = oid \<and> status (h q) \<noteq> FILLED \<and> symbol (h q) = smb) \<and>
      (\<forall>q \<in> set (queued (bids b) @ queued (asks b)). q < n \<and> symbol (h q) = smb))"

text \<open>
  And of the engine: the orders created so far carry the ids 1, 2, ... in the order of
  their creation, the counter is one past the last id, and every book is as above.
\<close>

definition engineInv :: "MatchingEngineCore \<Rightarrow> bool" where
  "engineInv e =
     (allocated e < 2 ^ 64 \<and>
      nextOrderId e = of_nat (Suc (allocated e)) \<and>
      (\<forall>q < allocated e. orderId (store e q) = of_nat (Suc q)) \<and>
      (\<forall>smb b. orderBooks e smb = Some b \<longrightarrow> bookInv (allocated e) (store e) smb b))"

text \<open>
  Scenario S1 on the engine: a SELL LIMIT of 100 at 150.00 is submitted, then a BUY
  LIMIT of 100 at 150.00. The orders get the ids 1 and 2 and are the objects 0 and 1.
\<close>

definition filled_engine :: MatchingEngineCore where
  "filled_engine =
     snd (submitOrder ''AAPL'' BUY LIMIT 1500000 100 [] 0
       (snd (submitOrder ''AAPL'' SELL LIMIT 1500000 100 [] 0 (newEngine blank))))"

section \<open>Properties\<close>

text \<open>The definitions to unfold when an example is evaluated by the simplifier.\<close>

lemmas model_defs =
  newOrder_def newOrderBook_def blank_def setStatus_def setPrice_def setQuantity_def
  isFilled_def isActive_def fill_def fillQty_def makeTrade_def fillBoth_def
  emptyLevel_def isEmpty_def PriceLevel_addOrder_def PriceLevel_removeOrder_def
  levels_erase_def levels_at_def greaterP_def lessP_def
  addOrder_def removeFromSide_def cancelOrder_def modifyOrder_def
  askTooHigh_def bidTooLow_def executeMatches_asks_def executeMatches_bids_def
  canFillAskTooHigh_def canFillBidTooLow_def canFillEntireOrder_asks_def canFillEntireOrder_bids_def
  executeOpposite_def matchMarketOrder_def matchLimitOrder_def matchIOCOrder_def
  matchFOKOrder_def matchOrder_def Let_def

subsection \<open>Aggregate quantity of a level\<close>

text \<open>
  C1. The claim: after each public operation, the \<open>totalQuantity\<close> of every level equals
  the sum of \<open>remainingQuantity\<close> over its queue. On the code this fails after
  \<open>matchOrder\<close>: \<open>executeMatches\<close> fills the resting order and never subtracts the fill
  from the level's total. In the test \<open>PartialFill\<close> the level still reports 100 while
  the one order in its queue has 50 left (the test expects 50).
\<close>

theorem C1_total_stale_after_partial_fill:
  "aggregateConsistent (addOrder 1 (newOrderBook ''AAPL'', partialFill_store)) \<and>
   \<not> aggregateConsistent (snd partialFill_result) \<and>
   getAskQuantityAtLevel 1500000 (fst (snd partialFill_result)) = 100 \<and>
   map (\<lambda>e. queueQuantity (snd (snd partialFill_result)) (snd e))
     (asks (fst (snd partialFill_result))) = [50]"
  by code_simp

subsection \<open>Price check of the sweep\<close>

text \<open>
  C2. The claim: an IOC order fills only against levels that satisfy the limit price
  predicate. On the code a BUY IOC of 100 priced 140.00 buys the 100 resting at 150.00:
  the price check of \<open>executeMatches\<close> is made for the type LIMIT only.
\<close>

theorem C2_ioc_fills_beyond_its_price:
  "map (\<lambda>t. (tradePrice t, tradeQuantity t)) (fst (below_result IOC)) = [(1500000, 100)] \<and>
   price (snd (snd (below_result IOC)) 2) = 1400000 \<and>
   status (snd (snd (below_result IOC)) 2) = FILLED"
  by code_simp

text \<open>
  C5. The claim: a STOP_LOSS or STOP_LIMIT order is matched exactly as the LIMIT order of
  the same side, price and quantity. On the code the BUY LIMIT priced 140.00 does not
  trade with the order resting at 150.00 and rests itself, while the stop orders of the
  same price buy at 150.00.
\<close>

theorem C5_stop_differs_from_limit:
  "fst (below_result LIMIT) = [] \<and>
   getBestBid (fst (snd (below_result LIMIT))) = 1400000 \<and>
   map (\<lambda>t. (tradePrice t, tradeQuantity t)) (fst (below_result STOP_LIMIT)) = [(1500000, 100)] \<and>
   map (\<lambda>t. (tradePrice t, tradeQuantity t)) (fst (below_result STOP_LOSS)) = [(1500000, 100)] \<and>
   bids (fst (snd (below_result STOP_LIMIT))) = []"
  by code_simp

subsection \<open>Fill or kill\<close>

text \<open>
  C3. The claim: a FOK order is never left partially filled. On the code the FOK order
  of 100 meets a level whose total still says 100 after half of it was taken, passes
  \<open>canFillEntireOrder\<close>, and is filled for 50 only: it ends PARTIAL_FILL with 50
  remaining.
\<close>

theorem C3_fok_left_partially_filled:
  "map tradeQuantity (fst fok_result) = [50] \<and>
   remainingQuantity (snd (snd fok_result) 3) = 50 \<and>
   status (snd (snd fok_result) 3) = PARTIAL_FILL \<and>
   asks (fst (snd fok_result)) = []"
  by code_simp

subsection \<open>Fields that filling and cancelling leave alone\<close>

lemma fill_fields [simp]:
  "orderId (fill q x) = orderId x" "side (fill q x) = side x" "otype (fill q x) = otype x"
  "price (fill q x) = price x" "symbol (fill q x) = symbol x" "quantity (fill q x) = quantity x"
  by (simp_all add: fill_def Let_def)

lemma setStatus_fields [simp]:
  "orderId (setStatus s x) = orderId x" "side (setStatus s x) = side x" "otype (setStatus s x) = otype x"
  "price (setStatus s x) = price x" "symbol (setStatus s x) = symbol x" "quantity (setStatus s x) = quantity x"
  "remainingQuantity (setStatus s x) = remainingQuantity x" "status (setStatus s x) = s"
  by (simp_all add: setStatus_def)

lemma fillBoth_fields [simp]:
  "orderId (fillBoth h p mp x) = orderId (h x)" "side (fillBoth h p mp x) = side (h x)"
  "otype (fillBoth h p mp x) = otype (h x)" "price (fillBoth h p mp x) = price (h x)"
  "symbol (fillBoth h p mp x) = symbol (h x)" "quantity (fillBoth h p mp x) = quantity (h x)"
  by (simp_all add: fillBoth_def Let_def)

subsection \<open>The sweep, loop by loop\<close>

text \<open>Induction along the inner loop, and along the outer loop.\<close>

lemma queue_induct [consumes 1, case_names Nil Stop Erase Keep]:
  assumes run: "executeMatches_queue smb p q h om = (ts, q', h', om')"
    and Nil: "\<And>h om. P [] h om [] [] h om"
    and Stop: "\<And>e q h om. \<not> 0 < remainingQuantity (h p) \<Longrightarrow> P (e # q) h om [] (e # q) h om"
    and Erase: "\<And>e q h om ts q' h' om'.
        0 < remainingQuantity (h p) \<Longrightarrow> isFilled (fillBoth h p (snd e) (snd e)) \<Longrightarrow>
        executeMatches_queue smb p q (fillBoth h p (snd e))
          (om(orderId (h (snd e)) := None)) = (ts, q', h', om') \<Longrightarrow>
        P q (fillBoth h p (snd e)) (om(orderId (h (snd e)) := None)) ts q' h' om' \<Longrightarrow>
        P (e # q) h om (makeTrade smb h p (snd e) # ts) q' h' om'"
    and Keep: "\<And>e q h om ts q' h' om'.
        0 < remainingQuantity (h p) \<Longrightarrow> \<not> isFilled (fillBoth h p (snd e) (snd e)) \<Longrightarrow>
        executeMatches_queue smb p q (fillBoth h p (snd e)) om = (ts, q', h', om') \<Longrightarrow>
        P q (fillBoth h p (snd e)) om ts q' h' om' \<Longrightarrow>
        P (e # q) h om (makeTrade smb h p (snd e) # ts) (e # q') h' om'"
  shows "P q h om ts q' h' om'"
  using run
proof (induction q arbitrary: h om ts q' h' om')
  case Nil
  then show ?case using assms(2) by simp
next
  case (Cons e q)
  show ?case
  proof (cases "0 < remainingQuantity (h p)")
    case False
    with Cons.prems have "ts = []" "q' = e # q" "h' = h" "om' = om" by simp_all
    moreover have "P (e # q) h om [] (e # q) h om" using False by (rule Stop)
    ultimately show ?thesis by simp
  next
    case pos: True
    show ?thesis
    proof (cases "isFilled (fillBoth h p (snd e) (snd e))")
      case True
      obtain ts2 q2 h2 om2 where r: "executeMatches_queue smb p q (fillBoth h p (snd e))
          (om(orderId (h (snd e)) := None)) = (ts2, q2, h2, om2)"
        using prod_cases4 by blast
      with Cons.prems pos True have "ts = makeTrade smb h p (snd e) # ts2" "q' = q2" "h' = h2" "om' = om2"
        by simp_all
      moreover have "P (e # q) h om (makeTrade smb h p (snd e) # ts2) q2 h2 om2"
        using pos True r Cons.IH[OF r] by (rule Erase)
      ultimately show ?thesis by simp
    next
      case False
      obtain ts2 q2 h2 om2 where r: "executeMatches_queue smb p q (fillBoth h p (snd e)) om = (ts2, q2, h2, om2)"
        using prod_cases4 by blast
      with Cons.prems pos False have "ts = makeTrade smb h p (snd e) # ts2" "q' = e # q2" "h' = h2" "om' = om2"
        by simp_all
      moreover have "P (e # q) h om (makeTrade smb h p (snd e) # ts2) (e # q2) h2 om2"
        using pos False r Cons.IH[OF r] by (rule Keep)
      ultimately show ?thesis by simp
    qed
  qed
qed

lemma queue_frame:
  assumes "executeMatches_queue smb p q h om = (ts, q', h', om')"
  shows "orderId (h' x) = orderId (h x) \<and> side (h' x) = side (h x) \<and> otype (h' x) = otype (h x) \<and>
   price (h' x) = price (h x) \<and> symbol (h' x) = symbol (h x) \<and> quantity (h' x) = quantity (h x)"
  using assms by (induction rule: queue_induct) simp_all

lemma levels_induct [consumes 1, case_names Nil Stop Break Level]:
  assumes run: "executeMatches_levels tooFar smb p fe m h om = (ts, m', h', om')"
    and Nil: "\<And>h om. P [] h om [] [] h om"
    and Stop: "\<And>kl m h om. \<not> 0 < remainingQuantity (h p) \<Longrightarrow> P (kl # m) h om [] (kl # m) h om"
    and Break: "\<And>kl m h om. 0 < remainingQuantity (h p) \<Longrightarrow> tooFar (h p) (fst kl) \<Longrightarrow>
        P (kl # m) h om [] (kl # m) h om"
    and Level: "\<And>kl m h om ts q h1 om1 ts' m' h2 om2.
        0 < remainingQuantity (h p) \<Longrightarrow> \<not> tooFar (h p) (fst kl) \<Longrightarrow>
        executeMatches_queue smb p (orders (snd kl)) h om = (ts, q, h1, om1) \<Longrightarrow>
        executeMatches_levels tooFar smb p fe m h1 om1 = (ts', m', h2, om2) \<Longrightarrow>
        P m h1 om1 ts' m' h2 om2 \<Longrightarrow>
        P (kl # m) h om (ts @ ts')
          (if q = [] then m' else (fst kl, (snd kl)\<lparr>orders := q\<rparr>) # m') h2 om2"
  shows "P m h om ts m' h' om'"
  using run
proof (induction m arbitrary: h om ts m' h' om')
  case Nil
  then show ?case using assms(2) by simp
next
  case (Cons kl m)
  show ?case
  proof (cases "0 < remainingQuantity (h p)")
    case False
    with Cons.prems have "ts = []" "m' = kl # m" "h' = h" "om' = om" by simp_all
    moreover have "P (kl # m) h om [] (kl # m) h om" using False by (rule Stop)
    ultimately show ?thesis by simp
  next
    case pos: True
    show ?thesis
    proof (cases "tooFar (h p) (fst kl)")
      case True
      with pos Cons.prems have "ts = []" "m' = kl # m" "h' = h" "om' = om" by simp_all
      moreover have "P (kl # m) h om [] (kl # m) h om" using pos True by (rule Break)
      ultimately show ?thesis by simp
    next
      case False
      obtain ts1 q h1 om1 where r1: "executeMatches_queue smb p (orders (snd kl)) h om = (ts1, q, h1, om1)"
        using prod_cases4 by blast
      obtain ts2 m2 h2 om2 where r2: "executeMatches_levels tooFar smb p fe m h1 om1 = (ts2, m2, h2, om2)"
        using prod_cases4 by blast
      from Cons.prems pos False r1 r2
      have "ts = ts1 @ ts2" "m' = (if q = [] then m2 else (fst kl, (snd kl)\<lparr>orders := q\<rparr>) # m2)"
        "h' = h2" "om' = om2"
        by (simp_all add: isEmpty_def)
      moreover have "P (kl # m) h om (ts1 @ ts2)
          (if q = [] then m2 else (fst kl, (snd kl)\<lparr>orders := q\<rparr>) # m2) h2 om2"
        using pos False r1 r2 Cons.IH[OF r2] by (rule Level)
      ultimately show ?thesis by simp
    qed
  qed
qed

lemma levels_frame:
  assumes "executeMatches_levels tooFar smb p fe m h om = (ts, m', h', om')"
  shows "orderId (h' x) = orderId (h x) \<and> side (h' x) = side (h x) \<and> otype (h' x) = otype (h x) \<and>
   price (h' x) = price (h x) \<and> symbol (h' x) = symbol (h x) \<and> quantity (h' x) = quantity (h x)"
  using assms
proof (induction rule: levels_induct)
  case (Level kl m h om ts q h1 om1 ts' m' h2 om2)
  from queue_frame[OF Level(3), of x] Level(5) show ?case by simp
qed simp_all

lemma passiveId_makeTrade [simp]:
  "passiveId (side (h p)) (makeTrade smb h p mp) = orderId (h mp)"
  "tradePrice (makeTrade smb h p mp) = price (h mp)"
  by (cases "side (h p)"; simp add: passiveId_def makeTrade_def)+

lemma word_not_pos: "(\<not> 0 < (x::64 word)) = (x = 0)"
  by (simp add: word_gt_0)

text \<open>The trades of one level follow its queue from the front, one trade a node.\<close>

lemma queue_trades:
  assumes "executeMatches_queue smb p q h om = (ts, q', h', om')"
  shows "map (\<lambda>t. (passiveId (side (h p)) t, tradePrice t)) ts =
           map (\<lambda>e. (orderId (h (snd e)), price (h (snd e)))) (take (length ts) q) \<and>
         length ts \<le> length q \<and>
         (length ts < length q \<longrightarrow> remainingQuantity (h' p) = 0)"
  using assms
  by (induction rule: queue_induct) (simp_all add: word_not_pos)

lemma levels_trades:
  assumes "executeMatches_levels tooFar smb p fe m h om = (ts, m', h', om')"
  shows "map (\<lambda>t. (passiveId (side (h p)) t, tradePrice t)) ts =
           map (\<lambda>x. (orderId (h x), price (h x))) (take (length ts) (queued m))"
  using assms
proof (induction rule: levels_induct)
  case (Level kl m h om ts q h1 om1 ts' m' h2 om2)
  note qt = queue_trades[OF Level(3)]
  note fr = queue_frame[OF Level(3)]
  show ?case
  proof (cases "length ts < length (orders (snd kl))")
    case True
    with qt have "remainingQuantity (h1 p) = 0" by simp
    with Level(4) have "ts' = []" by (cases m) simp_all
    with qt True show ?thesis by (simp add: queued_def take_map)
  next
    case False
    with qt have len: "length ts = length (orders (snd kl))" by simp
    from Level(5) fr have "map (\<lambda>t. (passiveId (side (h p)) t, tradePrice t)) ts' =
           map (\<lambda>x. (orderId (h x), price (h x))) (take (length ts') (queued m))"
      by simp
    with qt len show ?thesis by (simp add: queued_def take_map)
  qed
qed (simp_all add: queued_def)

lemma executeOpposite_trades:
  "map (\<lambda>t. (passiveId (side (h p)) t, tradePrice t)) (fst (executeOpposite p fe (b, h))) =
   map (\<lambda>x. (orderId (h x), price (h x)))
     (take (length (fst (executeOpposite p fe (b, h)))) (oppositeQueue p (b, h)))"
proof (cases "side (h p) = BUY")
  case True
  obtain ts m h1 om1 where r: "executeMatches_levels askTooHigh (bookSymbol b) p fe (asks b) h (orderMap b)
      = (ts, m, h1, om1)"
    using prod_cases4 by blast
  from levels_trades[OF r] True r show ?thesis
    by (simp add: executeOpposite_def executeMatches_asks_def oppositeQueue_def)
next
  case False
  obtain ts m h1 om1 where r: "executeMatches_levels bidTooLow (bookSymbol b) p fe (bids b) h (orderMap b)
      = (ts, m, h1, om1)"
    using prod_cases4 by blast
  from levels_trades[OF r] False r show ?thesis
    by (simp add: executeOpposite_def executeMatches_bids_def oppositeQueue_def)
qed

lemma executeOpposite_frame:
  assumes "executeOpposite p fe (b, h) = (ts, b', h')"
  shows "orderId (h' x) = orderId (h x) \<and> side (h' x) = side (h x) \<and> otype (h' x) = otype (h x) \<and>
   price (h' x) = price (h x) \<and> symbol (h' x) = symbol (h x) \<and> quantity (h' x) = quantity (h x)"
proof (cases "side (h p) = BUY")
  case True
  obtain ts m h1 om1 where r: "executeMatches_levels askTooHigh (bookSymbol b) p fe (asks b) h (orderMap b)
      = (ts, m, h1, om1)"
    using prod_cases4 by blast
  from levels_frame[OF r, of x] True r assms show ?thesis
    by (simp add: executeOpposite_def executeMatches_asks_def)
next
  case False
  obtain ts m h1 om1 where r: "executeMatches_levels bidTooLow (bookSymbol b) p fe (bids b) h (orderMap b)
      = (ts, m, h1, om1)"
    using prod_cases4 by blast
  from levels_frame[OF r, of x] False r assms show ?thesis
    by (simp add: executeOpposite_def executeMatches_bids_def)
qed

text \<open>The trades \<open>matchOrder\<close> returns are those of the sweep, or none.\<close>

lemma matchOrder_trades_cases:
  "fst (matchOrder p (b, h)) = [] \<or>
   (\<exists>fe. fst (matchOrder p (b, h)) = fst (executeOpposite p fe (b, h)))"
proof -
  obtain ts b1 h1 where f: "executeOpposite p False (b, h) = (ts, b1, h1)"
    using prod_cases3 by blast
  then have "fst (matchMarketOrder p (b, h)) = fst (executeOpposite p False (b, h))"
    "fst (matchLimitOrder p (b, h)) = fst (executeOpposite p False (b, h))"
    "fst (matchIOCOrder p (b, h)) = fst (executeOpposite p False (b, h))"
    by (simp_all add: matchMarketOrder_def matchLimitOrder_def matchIOCOrder_def)
  moreover have "fst (matchFOKOrder p (b, h)) = [] \<or>
      fst (matchFOKOrder p (b, h)) = fst (executeOpposite p True (b, h))"
    by (simp add: matchFOKOrder_def Let_def)
  ultimately show ?thesis
    by (cases "otype (h p)") (auto simp: matchOrder_def)
qed

lemma matchOrder_trades:
  "map (\<lambda>t. (passiveId (side (h p)) t, tradePrice t)) (fst (matchOrder p (b, h))) =
   map (\<lambda>x. (orderId (h x), price (h x)))
     (take (length (fst (matchOrder p (b, h)))) (oppositeQueue p (b, h)))"
  using matchOrder_trades_cases[of p b h] executeOpposite_trades[of h p _ b]
  by auto

lemma matchOrder_frame:
  assumes "matchOrder p (b, h) = (ts, b', h')"
  shows "orderId (h' x) = orderId (h x) \<and> side (h' x) = side (h x) \<and> otype (h' x) = otype (h x) \<and>
   price (h' x) = price (h x) \<and> symbol (h' x) = symbol (h x) \<and> quantity (h' x) = quantity (h x)"
proof -
  obtain ts0 b0 h0 where f: "executeOpposite p False (b, h) = (ts0, b0, h0)"
    using prod_cases3 by blast
  obtain ts1 b1 h1 where t: "executeOpposite p True (b, h) = (ts1, b1, h1)"
    using prod_cases3 by blast
  note ff = executeOpposite_frame[OF f, of x] and ft = executeOpposite_frame[OF t, of x]
  have m: "matchMarketOrder p (b, h) = (ts, b', h') \<Longrightarrow> ?thesis"
    using f ff by (auto simp: matchMarketOrder_def split: if_splits)
  have l: "matchLimitOrder p (b, h) = (ts, b', h') \<Longrightarrow> ?thesis"
    using f ff by (auto simp: matchLimitOrder_def split: if_splits)
  have i: "matchIOCOrder p (b, h) = (ts, b', h') \<Longrightarrow> ?thesis"
    using f ff by (auto simp: matchIOCOrder_def split: if_splits)
  have k: "matchFOKOrder p (b, h) = (ts, b', h') \<Longrightarrow> ?thesis"
    using t ft by (auto simp: matchFOKOrder_def Let_def split: if_splits)
  from assms m l i k show ?thesis
    by (cases "otype (h p)") (simp_all add: matchOrder_def)
qed

subsection \<open>Trade prices\<close>

text \<open>
  C7. The prices of the trades \<open>matchOrder\<close> returns are, one by one, the prices of the
  resting orders at the front of the opposite side, in priority order; matching changes
  the price of no order, so this is the resting order's price at the moment of its fill.
  The incoming order's own price is not used: in the test \<open>PassiveOrderPriceUsed\<close> the
  BUY LIMIT at 152.00 trades at 150.00, the price of the resting ask.
\<close>

theorem C7_trade_price_is_resting_price:
  "map tradePrice (fst (matchOrder p (b, h))) =
     map (\<lambda>x. price (h x)) (take (length (fst (matchOrder p (b, h)))) (oppositeQueue p (b, h))) \<and>
   (\<forall>x. price (snd (snd (matchOrder p (b, h))) x) = price (h x)) \<and>
   map tradePrice (fst improve_result) = [1500000] \<and>
   price (snd (snd improve_result) 2) = 1520000"
proof -
  have "map snd (map (\<lambda>t. (passiveId (side (h p)) t, tradePrice t)) (fst (matchOrder p (b, h)))) =
        map snd (map (\<lambda>x. (orderId (h x), price (h x)))
          (take (length (fst (matchOrder p (b, h)))) (oppositeQueue p (b, h))))"
    by (simp only: matchOrder_trades)
  then have a: "map tradePrice (fst (matchOrder p (b, h))) =
     map (\<lambda>x. price (h x)) (take (length (fst (matchOrder p (b, h)))) (oppositeQueue p (b, h)))"
    by (simp add: comp_def)
  have b: "price (snd (snd (matchOrder p (b, h))) x) = price (h x)" for x
    using matchOrder_frame[of p b h _ _ _ x] by (cases "matchOrder p (b, h)") simp
  have c: "map tradePrice (fst improve_result) = [1500000] \<and>
   price (snd (snd improve_result) 2) = 1520000"
    by code_simp
  from a b c show ?thesis by blast
qed

subsection \<open>Status and resting place after matching\<close>





text \<open>The sweep only takes away: from the queues and from the index.\<close>

lemma queue_shrinks:
  assumes "executeMatches_queue smb p q h om = (ts, q', h', om')"
  shows "set q' \<subseteq> set q \<and> (om' k = Some v \<longrightarrow> om k = Some v)"
  using assms by (induction rule: queue_induct) (auto split: if_splits)

lemma queued_simps [simp]:
  "queued [] = []" "queued (kl # m) = map snd (orders (snd kl)) @ queued m"
  by (simp_all add: queued_def)

lemma levels_shrinks:
  assumes "executeMatches_levels tooFar smb p fe m h om = (ts, m', h', om')"
  shows "set (queued m') \<subseteq> set (queued m) \<and> (om' k = Some v \<longrightarrow> om k = Some v)"
  using assms 
proof (induction rule: levels_induct)
  case (Level kl m h om ts q h1 om1 ts' m' h2 om2)
  from queue_shrinks[OF Level(3), of k v]
  have 1: "set q \<subseteq> set (orders (snd kl))" and 2: "om1 k = Some v \<longrightarrow> om k = Some v"
    by simp_all
  from 1 have "snd ` set q \<subseteq> snd ` set (orders (snd kl))" by blast
  with Level(5) 2 show ?case by auto
qed simp_all

lemma executeOpposite_shrinks:
  assumes "executeOpposite p fe (b, h) = (ts, b', h')"
  shows "set (queued (bids b')) \<subseteq> set (queued (bids b)) \<and>
         set (queued (asks b')) \<subseteq> set (queued (asks b)) \<and>
         (orderMap b' k = Some v \<longrightarrow> orderMap b k = Some v)"
proof (cases "side (h p) = BUY")
  case True
  obtain ts m h1 om1 where r: "executeMatches_levels askTooHigh (bookSymbol b) p fe (asks b) h (orderMap b)
      = (ts, m, h1, om1)"
    using prod_cases4 by blast
  from levels_shrinks[OF r, of k v] True r assms show ?thesis
    by (auto simp: executeOpposite_def executeMatches_asks_def)
next
  case False
  obtain ts m h1 om1 where r: "executeMatches_levels bidTooLow (bookSymbol b) p fe (bids b) h (orderMap b)
      = (ts, m, h1, om1)"
    using prod_cases4 by blast
  from levels_shrinks[OF r, of k v] False r assms show ?thesis
    by (auto simp: executeOpposite_def executeMatches_bids_def)
qed



lemma map_of_levels_put [simp]: "map_of (levels_put prec k v m) k = Some v"
  by (induction m) auto








subsection \<open>No crossed book\<close>

lemma levels_done:
  "remainingQuantity (h p) = 0 \<Longrightarrow> executeMatches_levels tooFar smb p fe m h om = ([], m, h, om)"
  by (cases m) simp_all

lemma queue_left:
  assumes "executeMatches_queue smb p q h om = (ts, q', h', om')"
  shows "q' \<noteq> [] \<longrightarrow> remainingQuantity (h' p) = 0"
  using assms
proof (induction rule: queue_induct)
  case (Keep e q h om ts q' h' om')
  have z: "remainingQuantity (fillBoth h p (snd e) p) = 0"
    using Keep(1,2)
    by (auto simp: fillBoth_def fillQty_def fill_def Let_def isFilled_def min_def split: if_splits)
  then have "executeMatches_queue smb p q (fillBoth h p (snd e)) om = ([], q, fillBoth h p (snd e), om)"
    by (cases q) simp_all
  with Keep(3) z show ?case by simp
qed (simp_all add: word_gt_0)

lemma levels_keys:
  assumes "executeMatches_levels tooFar smb p fe m h om = (ts, m', h', om')"
  shows "fst ` set m' \<subseteq> fst ` set m \<and>
         (sorted_wrt R (map fst m) \<longrightarrow> sorted_wrt R (map fst m'))"
  using assms
proof (induction rule: levels_induct)
  case (Level kl m h om ts q h1 om1 ts' m' h2 om2)
  then have sub: "fst ` set m' \<subseteq> fst ` set m" by simp
  have "sorted_wrt R (map fst (kl # m)) \<Longrightarrow> sorted_wrt R (fst kl # map fst m')"
  proof -
    assume s: "sorted_wrt R (map fst (kl # m))"
    then have "\<forall>k\<in>fst ` set m. R (fst kl) k" by auto
    with sub have "\<forall>k\<in>fst ` set m'. R (fst kl) k" by blast
    with s Level(5) show ?thesis by auto
  qed
  with sub Level(5) show ?case by auto
qed simp_all

lemma levels_stop:
  assumes "executeMatches_levels tooFar smb p fe m h om = (ts, m', h', om')"
    and stable: "\<And>x y k. otype x = otype y \<Longrightarrow> side x = side y \<Longrightarrow> price x = price y \<Longrightarrow>
        tooFar x k = tooFar y k"
  shows "0 < remainingQuantity (h' p) \<longrightarrow> m' = [] \<or> tooFar (h p) (fst (hd m'))"
  using assms(1)
proof (induction rule: levels_induct)
  case (Level kl m h om ts q h1 om1 ts' m' h2 om2)
  note fr = queue_frame[OF Level(3), of p]
  show ?case
  proof (cases "q = []")
    case True
    with Level(5) stable[of "h1 p" "h p"] fr show ?thesis by simp
  next
    case False
    with queue_left[OF Level(3)] have z: "remainingQuantity (h1 p) = 0" by simp
    with Level(4) levels_done[where h=h1 and p=p, OF z] have "h2 = h1" by simp
    with z show ?thesis by simp
  qed
qed simp_all

lemma levels_put_not_Nil [simp]: "levels_put prec k v m \<noteq> []"
  by (cases m) (auto split: if_splits)

lemma levels_put_keys: "fst ` set (levels_put prec k v m) = insert k (fst ` set m)"
proof (induction m)
  case Nil
  then show ?case by simp
next
  case (Cons a m)
  obtain k' v' where a: "a = (k', v')" by (cases a)
  have "fst ` set (levels_put prec k v ((k', v') # m)) = insert k (insert k' (fst ` set m))"
    using Cons.IH by (simp add: insert_commute)
  with a show ?case by simp
qed

lemma levels_put_sorted_gen:
  assumes total: "\<And>a b. a \<noteq> b \<Longrightarrow> \<not> prec a b \<Longrightarrow> prec b a"
    and trans: "\<And>a b c. prec a b \<Longrightarrow> prec b c \<Longrightarrow> prec a c"
  shows "sorted_wrt prec (map fst m) \<Longrightarrow> sorted_wrt prec (map fst (levels_put prec k v m))"
proof (induction m)
  case Nil
  then show ?case by simp
next
  case (Cons a m)
  obtain k' v' where a: "a = (k', v')" by (cases a)
  from Cons.prems a have below: "\<forall>x\<in>fst ` set m. prec k' x" and rest: "sorted_wrt prec (map fst m)"
    by auto
  show ?case
  proof (cases "k = k'")
    case True
    with Cons.prems a show ?thesis by simp
  next
    case ne: False
    show ?thesis
    proof (cases "prec k k'")
      case True
      with below trans have "\<forall>x\<in>fst ` set m. prec k x" by blast
      with True ne a rest below show ?thesis by auto
    next
      case False
      with total ne have "prec k' k" by blast
      with below have "\<forall>x\<in>fst ` set (levels_put prec k v m). prec k' x"
        by (simp add: levels_put_keys)
      with False ne a Cons.IH[OF rest] show ?thesis by auto
    qed
  qed
qed

lemma levels_put_sorted:
  "sorted_wrt greaterP (map fst m) \<Longrightarrow> sorted_wrt greaterP (map fst (levels_put greaterP k v m))"
  "sorted_wrt lessP (map fst m) \<Longrightarrow> sorted_wrt lessP (map fst (levels_put lessP k v m))"
  by (rule levels_put_sorted_gen; simp add: greaterP_def lessP_def)+

lemma levels_put_same_keys_gen:
  assumes asym: "\<And>a b. prec a b \<Longrightarrow> \<not> prec b a"
  shows "sorted_wrt prec (map fst m) \<Longrightarrow> k \<in> fst ` set m \<Longrightarrow>
         map fst (levels_put prec k v m) = map fst m"
proof (induction m)
  case Nil
  then show ?case by simp
next
  case (Cons a m)
  obtain k' v' where a: "a = (k', v')" by (cases a)
  show ?case
  proof (cases "k = k'")
    case True
    with a show ?thesis by simp
  next
    case False
    with Cons.prems a have in_m: "k \<in> fst ` set m" by auto
    with Cons.prems a have "prec k' k" by auto
    with asym have "\<not> prec k k'" by blast
    with False a Cons.IH in_m Cons.prems show ?thesis by simp
  qed
qed

lemma levels_put_same_keys:
  "sorted_wrt greaterP (map fst m) \<Longrightarrow> k \<in> fst ` set m \<Longrightarrow>
   map fst (levels_put greaterP k v m) = map fst m"
  "sorted_wrt lessP (map fst m) \<Longrightarrow> k \<in> fst ` set m \<Longrightarrow>
   map fst (levels_put lessP k v m) = map fst m"
  by (rule levels_put_same_keys_gen; simp add: greaterP_def lessP_def)+

lemma levels_put_hd_bids:
  "fst (hd (levels_put greaterP k v m)) = (if m = [] then k else max k (fst (hd m)))"
  by (cases m) (auto simp: greaterP_def)

lemma levels_put_hd_asks:
  "fst (hd (levels_put lessP k v m)) = (if m = [] then k else min k (fst (hd m)))"
  by (cases m) (auto simp: lessP_def)

lemma levels_erase_keys:
  "fst ` set (levels_erase k m) \<subseteq> fst ` set m"
  "sorted_wrt R (map fst m) \<Longrightarrow> sorted_wrt R (map fst (levels_erase k m))"
  by (induction m) (auto simp: levels_erase_def)

lemma uncrossed_iff:
  "uncrossed b = (bids b = [] \<or> asks b = [] \<or> fst (hd (bids b)) < fst (hd (asks b)))"
  by (cases "bids b"; cases "asks b") (simp_all add: uncrossed_def getBestBid_def getBestAsk_def)

lemma sorted_hd_bids:
  "sorted_wrt greaterP (map fst m) \<Longrightarrow> k \<in> fst ` set m \<Longrightarrow> k \<le> fst (hd m)"
  by (cases m) (auto simp: greaterP_def)

lemma sorted_hd_asks:
  "sorted_wrt lessP (map fst m) \<Longrightarrow> k \<in> fst ` set m \<Longrightarrow> fst (hd m) \<le> k"
  by (cases m) (auto simp: lessP_def)

text \<open>A side whose keys only go away leaves an uncrossed book uncrossed.\<close>

lemma uncrossed_fewer_asks:
  assumes "uncrossed b" "sorted_wrt lessP (map fst (asks b))" "fst ` set m' \<subseteq> fst ` set (asks b)"
  shows "uncrossed (b\<lparr>asks := m', orderMap := om\<rparr>)"
proof (cases "bids b = [] \<or> m' = []")
  case True
  then show ?thesis by (auto simp: uncrossed_iff)
next
  case False
  then have "fst (hd m') \<in> fst ` set m'" by (cases m') auto
  with assms(3) have "fst (hd m') \<in> fst ` set (asks b)" by blast
  from sorted_hd_asks[OF assms(2) this] assms(1) False this show ?thesis
    by (auto simp: uncrossed_iff)
qed

lemma uncrossed_fewer_bids:
  assumes "uncrossed b" "sorted_wrt greaterP (map fst (bids b))" "fst ` set m' \<subseteq> fst ` set (bids b)"
  shows "uncrossed (b\<lparr>bids := m', orderMap := om\<rparr>)"
proof (cases "asks b = [] \<or> m' = []")
  case True
  then show ?thesis by (auto simp: uncrossed_iff)
next
  case False
  then have "fst (hd m') \<in> fst ` set m'" by (cases m') auto
  with assms(3) have "fst (hd m') \<in> fst ` set (bids b)" by blast
  from sorted_hd_bids[OF assms(2) this] assms(1) False this show ?thesis
    by (auto simp: uncrossed_iff)
qed

lemma stable_checks:
  "otype x = otype y \<Longrightarrow> side x = side y \<Longrightarrow> price x = price y \<Longrightarrow> askTooHigh x k = askTooHigh y k"
  "otype x = otype y \<Longrightarrow> side x = side y \<Longrightarrow> price x = price y \<Longrightarrow> bidTooLow x k = bidTooLow y k"
  by (simp_all add: askTooHigh_def bidTooLow_def)

text \<open>
  What the sweep leaves of an uncrossed, ordered book: it is uncrossed and ordered, the
  side of the incoming order is as it was, and when something of the incoming order
  remains, the opposite side is empty or starts with a level the price check refuses.
\<close>

lemma executeOpposite_uncrossed:
  assumes ord: "orderedLevels b" and unc: "uncrossed b"
    and run: "executeOpposite p fe (b, h) = (ts, b0, h0)"
  shows "orderedLevels b0 \<and> uncrossed b0 \<and>
         (side (h p) = BUY \<longrightarrow> bids b0 = bids b \<and>
            (0 < remainingQuantity (h0 p) \<longrightarrow> asks b0 = [] \<or> askTooHigh (h p) (fst (hd (asks b0))))) \<and>
         (side (h p) \<noteq> BUY \<longrightarrow> asks b0 = asks b \<and>
            (0 < remainingQuantity (h0 p) \<longrightarrow> bids b0 = [] \<or> bidTooLow (h p) (fst (hd (bids b0)))))"
proof (cases "side (h p) = BUY")
  case True
  obtain ts1 m h1 om1 where r: "executeMatches_levels askTooHigh (bookSymbol b) p fe (asks b) h (orderMap b)
      = (ts1, m, h1, om1)"
    using prod_cases4 by blast
  with run True have b0: "b0 = b\<lparr>asks := m, orderMap := om1\<rparr>" and h0: "h0 = h1"
    by (simp_all add: executeOpposite_def executeMatches_asks_def)
  note keys = levels_keys[OF r, of lessP]
  have stop: "0 < remainingQuantity (h1 p) \<longrightarrow> m = [] \<or> askTooHigh (h p) (fst (hd m))"
    by (rule levels_stop[OF r]) (rule stable_checks)
  from ord keys have o: "orderedLevels b0" by (simp add: b0 orderedLevels_def)
  have "uncrossed (b\<lparr>asks := m, orderMap := om1\<rparr>)"
    using unc _ conjunct1[OF keys]
  proof (rule uncrossed_fewer_asks)
    from ord show "sorted_wrt lessP (map fst (asks b))" by (simp add: orderedLevels_def)
  qed
  then have u: "uncrossed b0" by (simp add: b0)
  show ?thesis using True stop o u by (simp add: b0 h0)
next
  case False
  obtain ts1 m h1 om1 where r: "executeMatches_levels bidTooLow (bookSymbol b) p fe (bids b) h (orderMap b)
      = (ts1, m, h1, om1)"
    using prod_cases4 by blast
  with run False have b0: "b0 = b\<lparr>bids := m, orderMap := om1\<rparr>" and h0: "h0 = h1"
    by (simp_all add: executeOpposite_def executeMatches_bids_def)
  note keys = levels_keys[OF r, of greaterP]
  have stop: "0 < remainingQuantity (h1 p) \<longrightarrow> m = [] \<or> bidTooLow (h p) (fst (hd m))"
    by (rule levels_stop[OF r]) (rule stable_checks)
  from ord keys have o: "orderedLevels b0" by (simp add: b0 orderedLevels_def)
  have "uncrossed (b\<lparr>bids := m, orderMap := om1\<rparr>)"
    using unc _ conjunct1[OF keys]
  proof (rule uncrossed_fewer_bids)
    from ord show "sorted_wrt greaterP (map fst (bids b))" by (simp add: orderedLevels_def)
  qed
  then have u: "uncrossed b0" by (simp add: b0)
  show ?thesis using False stop o u by (simp add: b0 h0)
qed

lemma matchLimitOrder_uncrossed:
  assumes ord: "orderedLevels b" and unc: "uncrossed b"
    and run: "matchLimitOrder p (b, h) = (ts, b', h')"
  shows "orderedLevels b' \<and> uncrossed b'"
proof -
  obtain ts0 b0 h0 where f: "executeOpposite p False (b, h) = (ts0, b0, h0)"
    using prod_cases3 by blast
  note e = executeOpposite_uncrossed[OF ord unc f]
  note fr = executeOpposite_frame[OF f, of p]
  show ?thesis
  proof (cases "0 < remainingQuantity (h0 p) \<and> isActive (h0 p)")
    case False
    with run f have "b' = b0" by (auto simp: matchLimitOrder_def)
    with e show ?thesis by simp
  next
    case rest: True
    show ?thesis
    proof (cases "side (h p) = BUY")
      case True
      let ?pr = "price (h p)"
      from run f rest True fr
      obtain L om where b': "b' = b0\<lparr>bids := levels_put greaterP ?pr L (bids b0), orderMap := om\<rparr>"
        by (auto simp: matchLimitOrder_def)
      from e True rest have far: "asks b0 = [] \<or> ?pr < fst (hd (asks b0))"
        by (auto simp: askTooHigh_def)
      from e have "uncrossed b0" by simp
      with far have "uncrossed b'"
        by (auto simp: b' uncrossed_iff levels_put_hd_bids)
      moreover from e have "orderedLevels b'"
        by (simp add: b' orderedLevels_def levels_put_sorted)
      ultimately show ?thesis by simp
    next
      case False
      let ?pr = "price (h p)"
      from run f rest False fr
      obtain L om where b': "b' = b0\<lparr>asks := levels_put lessP ?pr L (asks b0), orderMap := om\<rparr>"
        by (auto simp: matchLimitOrder_def)
      from e False rest have far: "bids b0 = [] \<or> fst (hd (bids b0)) < ?pr"
        by (auto simp: bidTooLow_def)
      from e have "uncrossed b0" by simp
      with far have "uncrossed b'"
        by (auto simp: b' uncrossed_iff levels_put_hd_asks)
      moreover from e have "orderedLevels b'"
        by (simp add: b' orderedLevels_def levels_put_sorted)
      ultimately show ?thesis by simp
    qed
  qed
qed

lemma matchOrder_uncrossed:
  assumes ord: "orderedLevels b" and unc: "uncrossed b"
    and run: "matchOrder p (b, h) = (ts, b', h')"
  shows "orderedLevels b' \<and> uncrossed b'"
proof -
  obtain ts0 b0 h0 where f: "executeOpposite p False (b, h) = (ts0, b0, h0)"
    using prod_cases3 by blast
  obtain ts1 b1 h1 where t: "executeOpposite p True (b, h) = (ts1, b1, h1)"
    using prod_cases3 by blast
  note e0 = executeOpposite_uncrossed[OF ord unc f] and e1 = executeOpposite_uncrossed[OF ord unc t]
  note l = matchLimitOrder_uncrossed[OF ord unc]
  show ?thesis
  proof (cases "otype (h p)")
    case MARKET
    with run f have "b' = b0" by (simp add: matchOrder_def matchMarketOrder_def)
    with e0 show ?thesis by simp
  next
    case IOC
    with run f have "b' = b0" by (simp add: matchOrder_def matchIOCOrder_def)
    with e0 show ?thesis by simp
  next
    case FOK
    with run t have "b' = b \<or> b' = b1"
      by (auto simp: matchOrder_def matchFOKOrder_def Let_def split: if_splits)
    with e1 ord unc show ?thesis by auto
  next
    case LIMIT
    with run l show ?thesis by (simp add: matchOrder_def)
  next
    case STOP_LOSS
    with run l show ?thesis by (simp add: matchOrder_def)
  next
    case STOP_LIMIT
    with run l show ?thesis by (simp add: matchOrder_def)
  qed
qed

lemma removeFromSide_keys:
  assumes "removeFromSide prec h oid pr m = Some m'"
  shows "fst ` set m' \<subseteq> fst ` set m \<and>
         (prec = greaterP \<or> prec = lessP \<longrightarrow> sorted_wrt prec (map fst m) \<longrightarrow>
            sorted_wrt prec (map fst m'))"
proof (cases "map_of m pr")
  case None
  with assms show ?thesis by (simp add: removeFromSide_def)
next
  case (Some lvl)
  then have k: "pr \<in> fst ` set m" by (force dest: map_of_SomeD)
  from assms Some obtain lvl' where
    m': "m' = (if isEmpty lvl' then levels_erase pr m else levels_put prec pr lvl' m)"
    by (auto simp: removeFromSide_def split: option.splits)
  show ?thesis
  proof (cases "isEmpty lvl'")
    case True
    with m' levels_erase_keys[where k=pr and m=m] show ?thesis by simp
  next
    case False
    with m' k levels_put_keys[of prec pr lvl' m] levels_put_sorted[where m=m and k=pr and v=lvl'] show ?thesis
      by auto
  qed
qed

lemma cancelOrder_uncrossed:
  assumes ord: "orderedLevels b" and unc: "uncrossed b"
    and run: "cancelOrder oid (b, h) = Some (r, b', h')"
  shows "orderedLevels b' \<and> uncrossed b'"
proof (cases "orderMap b oid")
  case None
  with run ord unc show ?thesis by (simp add: cancelOrder_def)
next
  case (Some p)
  let ?h1 = "h(p := setStatus CANCELLED (h p))"
  show ?thesis
  proof (cases "side (h p) = BUY")
    case True
    with run Some obtain m where rm: "removeFromSide greaterP ?h1 oid (price (h p)) (bids b) = Some m"
      and b': "b' = b\<lparr>bids := m, orderMap := (orderMap b)(oid := None)\<rparr>"
      by (auto simp: cancelOrder_def Let_def split: option.splits)
    note k = removeFromSide_keys[OF rm]
    have "uncrossed (b\<lparr>bids := m, orderMap := (orderMap b)(oid := None)\<rparr>)"
      using unc _ conjunct1[OF k]
    proof (rule uncrossed_fewer_bids)
      from ord show "sorted_wrt greaterP (map fst (bids b))" by (simp add: orderedLevels_def)
    qed
    with ord k show ?thesis
      by (simp add: b' orderedLevels_def)
  next
    case False
    with run Some obtain m where rm: "removeFromSide lessP ?h1 oid (price (h p)) (asks b) = Some m"
      and b': "b' = b\<lparr>asks := m, orderMap := (orderMap b)(oid := None)\<rparr>"
      by (auto simp: cancelOrder_def Let_def split: option.splits)
    note k = removeFromSide_keys[OF rm]
    have "uncrossed (b\<lparr>asks := m, orderMap := (orderMap b)(oid := None)\<rparr>)"
      using unc _ conjunct1[OF k]
    proof (rule uncrossed_fewer_asks)
      from ord show "sorted_wrt lessP (map fst (asks b))" by (simp add: orderedLevels_def)
    qed
    with ord k show ?thesis
      by (simp add: b' orderedLevels_def)
  qed
qed

text \<open>
  C4. The claim: after \<open>cancelOrder\<close>, \<open>modifyOrder\<close> and \<open>matchOrder\<close> the book is not
  crossed. \<open>modifyOrder\<close> re-inserts the order at its new price without matching, by
  design, so it can leave the best bid at or above the best ask: a bid modified to
  120.00 rests above the ask at 110.00. As amended: \<open>cancelOrder\<close> and \<open>matchOrder\<close>, for every order type, leave
  a book that is not crossed not crossed (and keep the two maps ordered).
\<close>

theorem C4_no_cross_after_cancel_and_match:
  assumes "orderedLevels b" and "uncrossed b"
  shows "uncrossed (fst (snd (matchOrder p (b, h)))) \<and>
         orderedLevels (fst (snd (matchOrder p (b, h)))) \<and>
         (\<forall>r b' h'. cancelOrder oid (b, h) = Some (r, b', h') \<longrightarrow> uncrossed b' \<and> orderedLevels b')"
proof -
  obtain ts b1 h1 where m: "matchOrder p (b, h) = (ts, b1, h1)"
    using prod_cases3 by blast
  from matchOrder_uncrossed[OF assms m] m cancelOrder_uncrossed[OF assms]
  show ?thesis by auto
qed

theorem C4_modify_crosses_counterexample:
  "orderedLevels (fst cross_book) \<and> uncrossed (fst cross_book) \<and>
   map_option fst cross_result = Some True \<and>
   map_option (getBestBid \<circ> fst \<circ> snd) cross_result = Some 1200000 \<and>
   map_option (getBestAsk \<circ> fst \<circ> snd) cross_result = Some 1100000 \<and>
   map_option (uncrossed \<circ> fst \<circ> snd) cross_result = Some False"
  by code_simp

theorem C4_no_cross_after_cancel_and_match_witness:
  "orderedLevels (fst cross_book) \<and> uncrossed (fst cross_book) \<and>
   map tradePrice (fst (matchOrder 3 cross_book)) = [1000000] \<and>
   getBestBid (fst (snd (matchOrder 3 cross_book))) = 1000000 \<and>
   getBestAsk (fst (snd (matchOrder 3 cross_book))) = 1100000 \<and>
   uncrossed (fst (snd (matchOrder 3 cross_book))) \<and>
   map_option fst (cancelOrder 1 cross_book) = Some True \<and>
   map_option (uncrossed \<circ> fst \<circ> snd) (cancelOrder 1 cross_book) = Some True"
proof -
  have a: "orderedLevels (fst cross_book)" "uncrossed (fst cross_book)"
    by code_simp+
  have b: "map tradePrice (fst (matchOrder 3 cross_book)) = [1000000] \<and>
   getBestBid (fst (snd (matchOrder 3 cross_book))) = 1000000 \<and>
   getBestAsk (fst (snd (matchOrder 3 cross_book))) = 1100000 \<and>
   map_option fst (cancelOrder 1 cross_book) = Some True"
    by code_simp
  then obtain b1 h1 where c: "cancelOrder 1 (fst cross_book, snd cross_book) = Some (True, b1, h1)"
    by (cases "cancelOrder 1 cross_book") auto
  note inst = C4_no_cross_after_cancel_and_match[OF a, of 3 "snd cross_book" 1]
  from inst c have "uncrossed b1" by blast
  with c have d: "map_option (uncrossed \<circ> fst \<circ> snd) (cancelOrder 1 cross_book) = Some True"
    by simp
  from inst have "uncrossed (fst (snd (matchOrder 3 cross_book)))" by simp
  with a b d show ?thesis by simp
qed

subsection \<open>The form of the book\<close>

text \<open>
  A new book is well formed, and \<open>addOrder\<close>, \<open>matchOrder\<close>, \<open>cancelOrder\<close> and
  \<open>modifyOrder\<close> keep a book well formed: its maps ordered, none of its levels empty,
  the nodes of each queue among those allocated.
\<close>

lemma wellFormed_alt:
  "wellFormed b \<longleftrightarrow>
     orderedLevels b \<and> list_all (\<lambda>e. levelOk (snd e)) (bids b) \<and> list_all (\<lambda>e. levelOk (snd e)) (asks b)"
  by (auto simp: wellFormed_def noEmptyLevels_def nodesAllocated_def levelOk_def isEmpty_def list_all_iff)

lemma levels_put_all:
  "list_all (\<lambda>e. P (snd e)) m \<Longrightarrow> P v \<Longrightarrow> list_all (\<lambda>e. P (snd e)) (levels_put prec k v m)"
proof (induction m)
  case Nil
  then show ?case by simp
next
  case (Cons a m)
  obtain k' v' where a: "a = (k', v')" by (cases a)
  with Cons show ?case by simp
qed

lemma levels_erase_all:
  "list_all P m \<Longrightarrow> list_all P (levels_erase k m)"
  by (simp add: levels_erase_def list_all_iff)

lemma levels_at_alloc:
  "list_all (\<lambda>e. levelOk (snd e)) m \<Longrightarrow> list_all (\<lambda>n. fst n < nodes (levels_at m k)) (orders (levels_at m k))"
proof (cases "map_of m k")
  case None
  then show ?thesis by (simp add: levels_at_def emptyLevel_def)
next
  case (Some L)
  assume "list_all (\<lambda>e. levelOk (snd e)) m"
  moreover from Some have "(k, L) \<in> set m" by (rule map_of_SomeD)
  ultimately have "levelOk (snd (k, L))" unfolding list_all_iff by blast
  with Some show ?thesis by (simp add: levels_at_def levelOk_def)
qed

lemma addOrder_levelOk:
  "list_all (\<lambda>n. fst n < nodes L) (orders L) \<Longrightarrow> levelOk (PriceLevel_addOrder h p L)"
  by (auto simp: levelOk_def PriceLevel_addOrder_def list_all_iff less_Suc_eq)

lemma rest_all:
  assumes "list_all (\<lambda>e. levelOk (snd e)) m"
  shows "list_all (\<lambda>e. levelOk (snd e)) (levels_put prec k (PriceLevel_addOrder h p (levels_at m k)) m)"
  using assms levels_at_alloc[OF assms, of k]
  by (intro levels_put_all addOrder_levelOk)

lemma levels_all:
  assumes "executeMatches_levels tooFar smb p fe m h om = (ts, m', h', om')"
  shows "list_all (\<lambda>e. levelOk (snd e)) m \<Longrightarrow> list_all (\<lambda>e. levelOk (snd e)) m'"
  using assms
proof (induction rule: levels_induct)
  case (Level kl m h om ts q h1 om1 ts' m' h2 om2)
  from queue_shrinks[OF Level(3)] have sub: "set q \<subseteq> set (orders (snd kl))" by simp
  from Level.prems have "levelOk (snd kl)" and rest: "list_all (\<lambda>e. levelOk (snd e)) m" by simp_all
  with sub have "q \<noteq> [] \<Longrightarrow> levelOk ((snd kl)\<lparr>orders := q\<rparr>)"
    by (auto simp: levelOk_def list_all_iff)
  with Level.IH[OF rest] show ?case by simp
qed simp_all

lemma removeFromSide_all:
  assumes "removeFromSide prec h oid pr m = Some m'" "list_all (\<lambda>e. levelOk (snd e)) m"
  shows "list_all (\<lambda>e. levelOk (snd e)) m'"
proof (cases "map_of m pr")
  case None
  with assms show ?thesis by (simp add: removeFromSide_def)
next
  case (Some lvl)
  from assms(1) Some obtain lvl' where rm: "PriceLevel_removeOrder h oid lvl = Some lvl'"
    and m': "m' = (if isEmpty lvl' then levels_erase pr m else levels_put prec pr lvl' m)"
    by (auto simp: removeFromSide_def split: option.splits)
  from Some have "(pr, lvl) \<in> set m" by (rule map_of_SomeD)
  with assms(2) have "levelOk (snd (pr, lvl))" unfolding list_all_iff by blast
  with rm have "\<not> isEmpty lvl' \<Longrightarrow> levelOk lvl'"
    by (fastforce simp: PriceLevel_removeOrder_def levelOk_def isEmpty_def list_all_iff
        split: option.splits)
  with m' assms(2) show ?thesis
    by (auto intro: levels_put_all levels_erase_all)
qed

lemma wellFormed_new: "wellFormed (newOrderBook s)"
  by (simp add: wellFormed_alt newOrderBook_def orderedLevels_def)

lemma wellFormed_addOrder:
  assumes "wellFormed b"
  shows "wellFormed (fst (addOrder p (b, h)))"
  using assms
  by (auto simp: wellFormed_alt addOrder_def Let_def orderedLevels_def levels_put_sorted rest_all)

lemma executeOpposite_all:
  assumes "executeOpposite p fe (b, h) = (ts, b0, h0)"
    and "list_all (\<lambda>e. levelOk (snd e)) (bids b)" "list_all (\<lambda>e. levelOk (snd e)) (asks b)"
  shows "list_all (\<lambda>e. levelOk (snd e)) (bids b0) \<and> list_all (\<lambda>e. levelOk (snd e)) (asks b0)"
proof (cases "side (h p) = BUY")
  case True
  obtain ts1 m h1 om1 where r: "executeMatches_levels askTooHigh (bookSymbol b) p fe (asks b) h (orderMap b)
      = (ts1, m, h1, om1)"
    using prod_cases4 by blast
  with assms(1) True have "bids b0 = bids b" "asks b0 = m"
    by (auto simp: executeOpposite_def executeMatches_asks_def)
  with levels_all[OF r assms(3)] assms(2) show ?thesis by simp
next
  case False
  obtain ts1 m h1 om1 where r: "executeMatches_levels bidTooLow (bookSymbol b) p fe (bids b) h (orderMap b)
      = (ts1, m, h1, om1)"
    using prod_cases4 by blast
  with assms(1) False have "asks b0 = asks b" "bids b0 = m"
    by (auto simp: executeOpposite_def executeMatches_bids_def)
  with levels_all[OF r assms(2)] assms(3) show ?thesis by simp
qed

lemma wellFormed_matchOrder:
  assumes wf: "wellFormed b"
  shows "wellFormed (fst (snd (matchOrder p (b, h))))"
proof -
  obtain ts b' h' where run: "matchOrder p (b, h) = (ts, b', h')"
    using prod_cases3 by blast
  obtain ts0 b0 h0 where f: "executeOpposite p False (b, h) = (ts0, b0, h0)"
    using prod_cases3 by blast
  obtain ts1 b1 h1 where t: "executeOpposite p True (b, h) = (ts1, b1, h1)"
    using prod_cases3 by blast
  from wf have lv: "list_all (\<lambda>e. levelOk (snd e)) (bids b)" "list_all (\<lambda>e. levelOk (snd e)) (asks b)"
    and ord: "orderedLevels b"
    by (simp_all add: wellFormed_alt)
  note a0 = executeOpposite_all[OF f lv] and a1 = executeOpposite_all[OF t lv]
  have "list_all (\<lambda>e. levelOk (snd e)) (bids b') \<and> list_all (\<lambda>e. levelOk (snd e)) (asks b')"
    using run f t a0 a1 lv
    by (cases "otype (h p)")
      (auto simp: matchOrder_def matchMarketOrder_def matchLimitOrder_def matchIOCOrder_def
        matchFOKOrder_def Let_def rest_all split: if_splits)
  moreover have "orderedLevels b'"
  proof -
    have keys: "orderedLevels b0" "orderedLevels b1"
    proof -
      show "orderedLevels b0"
      proof (cases "side (h p) = BUY")
        case True
        obtain ts1 m h1 om1 where r: "executeMatches_levels askTooHigh (bookSymbol b) p False (asks b) h (orderMap b)
            = (ts1, m, h1, om1)"
          using prod_cases4 by blast
        with f True have "bids b0 = bids b" "asks b0 = m"
          by (auto simp: executeOpposite_def executeMatches_asks_def)
        with levels_keys[OF r, of lessP] ord show ?thesis by (simp add: orderedLevels_def)
      next
        case False
        obtain ts1 m h1 om1 where r: "executeMatches_levels bidTooLow (bookSymbol b) p False (bids b) h (orderMap b)
            = (ts1, m, h1, om1)"
          using prod_cases4 by blast
        with f False have "asks b0 = asks b" "bids b0 = m"
          by (auto simp: executeOpposite_def executeMatches_bids_def)
        with levels_keys[OF r, of greaterP] ord show ?thesis by (simp add: orderedLevels_def)
      qed
      show "orderedLevels b1"
      proof (cases "side (h p) = BUY")
        case True
        obtain ts2 m h2 om2 where r: "executeMatches_levels askTooHigh (bookSymbol b) p True (asks b) h (orderMap b)
            = (ts2, m, h2, om2)"
          using prod_cases4 by blast
        with t True have "bids b1 = bids b" "asks b1 = m"
          by (auto simp: executeOpposite_def executeMatches_asks_def)
        with levels_keys[OF r, of lessP] ord show ?thesis by (simp add: orderedLevels_def)
      next
        case False
        obtain ts2 m h2 om2 where r: "executeMatches_levels bidTooLow (bookSymbol b) p True (bids b) h (orderMap b)
            = (ts2, m, h2, om2)"
          using prod_cases4 by blast
        with t False have "asks b1 = asks b" "bids b1 = m"
          by (auto simp: executeOpposite_def executeMatches_bids_def)
        with levels_keys[OF r, of greaterP] ord show ?thesis by (simp add: orderedLevels_def)
      qed
    qed
    with run f t ord show ?thesis
      by (cases "otype (h p)")
        (auto simp: matchOrder_def matchMarketOrder_def matchLimitOrder_def matchIOCOrder_def
          matchFOKOrder_def Let_def orderedLevels_def levels_put_sorted split: if_splits)
  qed
  ultimately show ?thesis using run by (simp add: wellFormed_alt)
qed

lemma wellFormed_cancelOrder:
  assumes wf: "wellFormed b" and run: "cancelOrder oid (b, h) = Some (r, b', h')"
  shows "wellFormed b'"
proof (cases "orderMap b oid")
  case None
  with run wf show ?thesis by (simp add: cancelOrder_def)
next
  case (Some p)
  from wf have lv: "list_all (\<lambda>e. levelOk (snd e)) (bids b)" "list_all (\<lambda>e. levelOk (snd e)) (asks b)"
    and ord: "sorted_wrt greaterP (map fst (bids b))" "sorted_wrt lessP (map fst (asks b))"
    by (simp_all add: wellFormed_alt orderedLevels_def)
  let ?h1 = "h(p := setStatus CANCELLED (h p))"
  from run Some have
    "(\<exists>m. removeFromSide greaterP ?h1 oid (price (h p)) (bids b) = Some m \<and> bids b' = m \<and> asks b' = asks b) \<or>
     (\<exists>m. removeFromSide lessP ?h1 oid (price (h p)) (asks b) = Some m \<and> asks b' = m \<and> bids b' = bids b)"
    by (auto simp: cancelOrder_def Let_def split: option.splits if_splits)
  then show ?thesis
  proof (elim disjE exE conjE)
    fix m assume a: "removeFromSide greaterP ?h1 oid (price (h p)) (bids b) = Some m"
      "bids b' = m" "asks b' = asks b"
    from removeFromSide_all[OF a(1) lv(1)] removeFromSide_keys[OF a(1)] a(2,3) lv ord
    show ?thesis by (simp add: wellFormed_alt orderedLevels_def)
  next
    fix m assume a: "removeFromSide lessP ?h1 oid (price (h p)) (asks b) = Some m"
      "asks b' = m" "bids b' = bids b"
    from removeFromSide_all[OF a(1) lv(2)] removeFromSide_keys[OF a(1)] a(2,3) lv ord
    show ?thesis by (simp add: wellFormed_alt orderedLevels_def)
  qed
qed

lemma wellFormed_modifyOrder:
  assumes wf: "wellFormed b" and run: "modifyOrder oid pr qty (b, h) = Some (r, b', h')"
  shows "wellFormed b'"
proof (cases "orderMap b oid")
  case None
  with run wf show ?thesis by (simp add: modifyOrder_def)
next
  case (Some p)
  from wf have lv: "list_all (\<lambda>e. levelOk (snd e)) (bids b)" "list_all (\<lambda>e. levelOk (snd e)) (asks b)"
    and ord: "sorted_wrt greaterP (map fst (bids b))" "sorted_wrt lessP (map fst (asks b))"
    by (simp_all add: wellFormed_alt orderedLevels_def)
  let ?h1 = "h(p := setStatus PENDING (setQuantity qty (setPrice pr (h p))))"
  from run Some have
    "(\<exists>m. removeFromSide greaterP h oid (price (h p)) (bids b) = Some m \<and> asks b' = asks b \<and>
          bids b' = levels_put greaterP pr (PriceLevel_addOrder ?h1 p (levels_at m pr)) m) \<or>
     (\<exists>m. removeFromSide lessP h oid (price (h p)) (asks b) = Some m \<and> bids b' = bids b \<and>
          asks b' = levels_put lessP pr (PriceLevel_addOrder ?h1 p (levels_at m pr)) m)"
    by (auto simp: modifyOrder_def Let_def split: option.splits if_splits)
  then show ?thesis
  proof (elim disjE exE conjE)
    fix m assume a: "removeFromSide greaterP h oid (price (h p)) (bids b) = Some m"
      "asks b' = asks b" "bids b' = levels_put greaterP pr (PriceLevel_addOrder ?h1 p (levels_at m pr)) m"
    from removeFromSide_all[OF a(1) lv(1)] removeFromSide_keys[OF a(1)] a(2,3) lv ord
    show ?thesis by (simp add: wellFormed_alt orderedLevels_def levels_put_sorted rest_all)
  next
    fix m assume a: "removeFromSide lessP h oid (price (h p)) (asks b) = Some m"
      "bids b' = bids b" "asks b' = levels_put lessP pr (PriceLevel_addOrder ?h1 p (levels_at m pr)) m"
    from removeFromSide_all[OF a(1) lv(2)] removeFromSide_keys[OF a(1)] a(2,3) lv ord
    show ?thesis by (simp add: wellFormed_alt orderedLevels_def levels_put_sorted rest_all)
  qed
qed

subsection \<open>Adding an order and cancelling it\<close>

lemma levels_erase_put:
  "k \<notin> fst ` set m \<Longrightarrow> levels_erase k (levels_put prec k v m) = m"
proof (induction m)
  case Nil
  then show ?case by (simp add: levels_erase_def)
next
  case (Cons a m)
  obtain k' v' where a: "a = (k', v')" by (cases a)
  with Cons have ne: "k \<noteq> k'" and notin: "k \<notin> fst ` set m" by auto
  then have "filter (\<lambda>e. fst e \<noteq> k) m = m"
    by (auto intro!: filter_True)
  with Cons.IH[OF notin] ne a show ?case by (simp add: levels_erase_def)
qed

lemma levels_put_replace_gen:
  assumes asym: "\<And>a b. prec a b \<Longrightarrow> \<not> prec b a"
  shows "sorted_wrt prec (map fst m) \<Longrightarrow> k \<in> fst ` set m \<Longrightarrow>
         levels_put prec k v m = map (\<lambda>e. if fst e = k then (k, v) else e) m"
proof (induction m)
  case Nil
  then show ?case by simp
next
  case (Cons a m)
  obtain k' v' where a: "a = (k', v')" by (cases a)
  show ?case
  proof (cases "k = k'")
    case True
    from Cons.prems a have "\<forall>x\<in>fst ` set m. prec k' x" by auto
    with asym True have "\<forall>e\<in>set m. fst e \<noteq> k" by (metis image_eqI)
    then have "map (\<lambda>e. if fst e = k then (k, v) else e) m = m"
      by (induction m) auto
    with True a show ?thesis by simp
  next
    case False
    with Cons.prems a have in_m: "k \<in> fst ` set m" by auto
    with Cons.prems a have "prec k' k" by auto
    with asym have "\<not> prec k k'" by blast
    with False a Cons.IH in_m Cons.prems show ?thesis by simp
  qed
qed

lemma levels_put_replace:
  "sorted_wrt greaterP (map fst m) \<Longrightarrow> k \<in> fst ` set m \<Longrightarrow>
   levels_put greaterP k v m = map (\<lambda>e. if fst e = k then (k, v) else e) m"
  "sorted_wrt lessP (map fst m) \<Longrightarrow> k \<in> fst ` set m \<Longrightarrow>
   levels_put lessP k v m = map (\<lambda>e. if fst e = k then (k, v) else e) m"
  by (rule levels_put_replace_gen; simp add: greaterP_def lessP_def)+

lemma sorted_keys_distinct:
  "sorted_wrt greaterP ks \<Longrightarrow> distinct ks" "sorted_wrt lessP ks \<Longrightarrow> distinct ks"
  by (induction ks) (auto simp: greaterP_def lessP_def)

lemma sorted_map_of_unique:
  assumes "sorted_wrt greaterP (map fst m) \<or> sorted_wrt lessP (map fst m)" "map_of m k = Some l"
    "e \<in> set m" "fst e = k"
  shows "snd e = l"
proof -
  from assms(1) have "distinct (map fst m)"
    using sorted_keys_distinct by blast
  with assms(2,3,4) show ?thesis
    by (metis map_of_eq_Some_iff option.inject prod.collapse)
qed

lemma level_round_trip:
  assumes alloc: "list_all (\<lambda>n. fst n < nodes L) (orders L)"
    and rem: "remainingQuantity (g p) = remainingQuantity (h p)"
  shows "\<exists>L''. PriceLevel_removeOrder g (orderId (h p)) (PriceLevel_addOrder h p L) = Some L'' \<and>
           totalQuantity L'' = totalQuantity L \<and> orders L'' = orders L"
proof -
  from alloc have fresh: "\<forall>e\<in>set (orders L). fst e \<noteq> nodes L"
    by (auto simp: list_all_iff)
  then have "map_of (orders L) (nodes L) = None"
    by (metis map_of_SomeD fst_conv not_Some_eq)
  then have look: "map_of (orders L @ [(nodes L, p)]) (nodes L) = Some p"
    by (simp add: map_add_def)
  from fresh have keep: "filter (\<lambda>e. fst e \<noteq> nodes L) (orders L) = orders L"
    by (auto intro!: filter_True)
  from look keep rem show ?thesis
    by (simp add: PriceLevel_removeOrder_def PriceLevel_addOrder_def)
qed

lemma side_round_trip:
  assumes prec: "prec = greaterP \<or> prec = lessP"
    and sorted: "sorted_wrt prec (map fst m)"
    and nonempty: "list_all (\<lambda>e. \<not> isEmpty (snd e)) m"
    and alloc: "list_all (\<lambda>e. list_all (\<lambda>n. fst n < nodes (snd e)) (orders (snd e))) m"
    and rem: "remainingQuantity (h1 p) = remainingQuantity (h p)"
  shows "\<exists>m'. removeFromSide prec h1 (orderId (h p)) pr
             (levels_put prec pr (PriceLevel_addOrder h p (levels_at m pr)) m) = Some m' \<and>
           levelsView m' = levelsView m"
proof (cases "map_of m pr")
  case None
  then have L: "levels_at m pr = emptyLevel" by (simp add: levels_at_def)
  have "list_all (\<lambda>n. fst n < nodes emptyLevel) (orders emptyLevel)"
    by (simp add: emptyLevel_def)
  from level_round_trip[where L=emptyLevel and g=h1 and h=h and p=p, OF this rem] obtain L'' where
    rm: "PriceLevel_removeOrder h1 (orderId (h p)) (PriceLevel_addOrder h p emptyLevel) = Some L''"
    and o: "orders L'' = []"
    by (auto simp: emptyLevel_def)
  from None have "pr \<notin> fst ` set m" by (simp add: map_of_eq_None_iff)
  then have "levels_erase pr (levels_put prec pr (PriceLevel_addOrder h p emptyLevel) m) = m"
    by (rule levels_erase_put)
  with rm o L show ?thesis
    by (simp add: removeFromSide_def isEmpty_def)
next
  case (Some L)
  then have L: "levels_at m pr = L" by (simp add: levels_at_def)
  from Some have mem: "(pr, L) \<in> set m" by (rule map_of_SomeD)
  then have k: "pr \<in> fst ` set m" by force
  from mem alloc have "list_all (\<lambda>n. fst n < nodes (snd (pr, L))) (orders (snd (pr, L)))"
    unfolding list_all_iff by blast
  then have "list_all (\<lambda>n. fst n < nodes L) (orders L)" by simp
  from level_round_trip[where L=L and g=h1 and h=h and p=p, OF this rem] obtain L'' where
    rm: "PriceLevel_removeOrder h1 (orderId (h p)) (PriceLevel_addOrder h p L) = Some L''"
    and t: "totalQuantity L'' = totalQuantity L" and o: "orders L'' = orders L"
    by auto
  from mem nonempty have "\<not> isEmpty (snd (pr, L))"
    unfolding list_all_iff by blast
  then have ne: "\<not> isEmpty L''"
    by (simp add: isEmpty_def o)
  let ?m1 = "levels_put prec pr (PriceLevel_addOrder h p L) m"
  from prec sorted k have m1: "?m1 = map (\<lambda>e. if fst e = pr then (pr, PriceLevel_addOrder h p L) else e) m"
    using levels_put_replace by blast
  from prec sorted have s1: "sorted_wrt prec (map fst ?m1)"
    using levels_put_sorted by blast
  have k1: "pr \<in> fst ` set ?m1" by (simp add: levels_put_keys)
  from prec s1 k1 have m2: "levels_put prec pr L'' ?m1 = map (\<lambda>e. if fst e = pr then (pr, L'') else e) ?m1"
    using levels_put_replace by blast
  have "levelsView (map (\<lambda>e. if fst e = pr then (pr, L'') else e) ?m1) = levelsView m"
    unfolding m1 levelsView_def
  proof (simp, intro ballI impI)
    fix e assume e: "e \<in> set m" "fst e = pr"
    from prec sorted have "sorted_wrt greaterP (map fst m) \<or> sorted_wrt lessP (map fst m)" by blast
    from sorted_map_of_unique[OF this Some e] t o
    show "totalQuantity L'' = totalQuantity (snd e) \<and> map snd (orders L'') = map snd (orders (snd e))"
      by simp
  qed
  with m2 rm ne L show ?thesis
    by (simp add: removeFromSide_def)
qed

lemma queued_levelsView: "queued m = concat (map (\<lambda>v. snd (snd v)) (levelsView m))"
  by (simp add: queued_def levelsView_def comp_def)

lemma restsIn_view:
  assumes "levelsView (bids b') = levelsView (bids b)" "levelsView (asks b') = levelsView (asks b)"
    "orderMap b' = orderMap b"
  shows "restsIn b' x = restsIn b x"
  using assms by (simp add: restsIn_def queued_levelsView)

text \<open>
  C9. For a book as the operations keep it (\<open>wellFormed\<close>: maps ordered, no empty
  level, list nodes allocated by the list) and an order that is not in it (its id is not indexed, no queue
  and no index entry holds it), \<open>addOrder\<close> followed by \<open>cancelOrder\<close> of its id returns
  true and leaves the book as it was: the same levels with the same aggregates and the
  same queues on both sides, the same index. The store differs at the order itself
  only, which is now CANCELLED; every order in the book is as before.
\<close>

theorem C9_add_then_cancel:
  assumes wf: "wellFormed b"
    and new: "orderMap b (orderId (h p)) = None" and out: "\<not> restsIn b p"
  shows "\<exists>b'. cancelOrder (orderId (h p)) (addOrder p (b, h)) =
                Some (True, b', h(p := setStatus CANCELLED (h p))) \<and>
           levelsView (bids b') = levelsView (bids b) \<and>
           levelsView (asks b') = levelsView (asks b) \<and>
           orderMap b' = orderMap b \<and> bookSymbol b' = bookSymbol b \<and>
           (\<forall>x. restsIn b' x \<longrightarrow> (h(p := setStatus CANCELLED (h p))) x = h x)"
proof -
  let ?h1 = "h(p := setStatus CANCELLED (h p))"
  let ?oid = "orderId (h p)"
  let ?pr = "price (h p)"
  from wf have ord: "orderedLevels b" and ne: "noEmptyLevels b" and al: "nodesAllocated b"
    by (simp_all add: wellFormed_def)
  have rem: "remainingQuantity (?h1 p) = remainingQuantity (h p)" by simp
  from new have om: "((orderMap b)(?oid \<mapsto> p))(?oid := None) = orderMap b"
    by (auto simp: fun_eq_iff)
  from ne have neb: "list_all (\<lambda>e. \<not> isEmpty (snd e)) (bids b)"
    and nea: "list_all (\<lambda>e. \<not> isEmpty (snd e)) (asks b)"
    by (simp_all add: noEmptyLevels_def)
  from al have alb: "list_all (\<lambda>e. list_all (\<lambda>n. fst n < nodes (snd e)) (orders (snd e))) (bids b)"
    and ala: "list_all (\<lambda>e. list_all (\<lambda>n. fst n < nodes (snd e)) (orders (snd e))) (asks b)"
    by (simp_all add: nodesAllocated_def)
  have "\<exists>b'. cancelOrder ?oid (addOrder p (b, h)) = Some (True, b', ?h1) \<and>
           levelsView (bids b') = levelsView (bids b) \<and>
           levelsView (asks b') = levelsView (asks b) \<and>
           orderMap b' = orderMap b \<and> bookSymbol b' = bookSymbol b"
  proof (cases "side (h p) = BUY")
    case True
    from ord have "sorted_wrt greaterP (map fst (bids b))" by (simp add: orderedLevels_def)
    from side_round_trip[where prec=greaterP and m="bids b" and ?h1.0="?h1" and h=h and p=p and pr="?pr",
        OF _ this neb alb rem]
    obtain m' where "removeFromSide greaterP ?h1 ?oid ?pr
        (levels_put greaterP ?pr (PriceLevel_addOrder h p (levels_at (bids b) ?pr)) (bids b)) = Some m'"
      and "levelsView m' = levelsView (bids b)" by auto
    with True om show ?thesis
      by (simp add: cancelOrder_def addOrder_def Let_def)
  next
    case False
    from ord have "sorted_wrt lessP (map fst (asks b))" by (simp add: orderedLevels_def)
    from side_round_trip[where prec=lessP and m="asks b" and ?h1.0="?h1" and h=h and p=p and pr="?pr",
        OF _ this nea ala rem]
    obtain m' where "removeFromSide lessP ?h1 ?oid ?pr
        (levels_put lessP ?pr (PriceLevel_addOrder h p (levels_at (asks b) ?pr)) (asks b)) = Some m'"
      and "levelsView m' = levelsView (asks b)" by auto
    with False om show ?thesis
      by (simp add: cancelOrder_def addOrder_def Let_def)
  qed
  then obtain b' where b': "cancelOrder ?oid (addOrder p (b, h)) = Some (True, b', ?h1)"
    "levelsView (bids b') = levelsView (bids b)" "levelsView (asks b') = levelsView (asks b)"
    "orderMap b' = orderMap b" "bookSymbol b' = bookSymbol b"
    by blast
  from restsIn_view[OF b'(2,3,4)] out have "\<forall>x. restsIn b' x \<longrightarrow> ?h1 x = h x"
    by auto
  with b' show ?thesis by blast
qed

theorem C9_add_then_cancel_witness:
  "wellFormed (fst round_state) \<and> orderMap (fst round_state) 5 = None \<and>
   \<not> restsIn (fst round_state) 5 \<and>
   map_option fst (cancelOrder 5 (addOrder 5 round_state)) = Some True \<and>
   map_option (levelsView \<circ> asks \<circ> fst \<circ> snd) (cancelOrder 5 (addOrder 5 round_state)) =
     Some [(1500000, 300, [1, 2, 3])] \<and>
   levelsView (asks (fst (addOrder 5 round_state))) = [(1500000, 370, [1, 2, 3, 5])] \<and>
   levelsView (asks (fst round_state)) = [(1500000, 300, [1, 2, 3])]"
proof -
  have a: "wellFormed (fst round_state)"
    "levelsView (asks (fst (addOrder 5 round_state))) = [(1500000, 370, [1, 2, 3, 5])]"
    "levelsView (asks (fst round_state)) = [(1500000, 300, [1, 2, 3])]"
    "orderId (snd round_state 5) = 5"
    by code_simp+
  have b: "orderMap (fst round_state) 5 = None" "\<not> restsIn (fst round_state) 5"
    by (simp_all add: round_state_def fifo_book_def fifo_store_def restsIn_def queued_def model_defs)
  from b(1) a(4) have c: "orderMap (fst round_state) (orderId (snd round_state 5)) = None" by simp
  from C9_add_then_cancel[where b="fst round_state" and h="snd round_state" and p=5,
      OF a(1) c b(2)] a(3,4)
  have "map_option fst (cancelOrder 5 (addOrder 5 round_state)) = Some True \<and>
    map_option (levelsView \<circ> asks \<circ> fst \<circ> snd) (cancelOrder 5 (addOrder 5 round_state)) =
     Some [(1500000, 300, [1, 2, 3])]"
    by auto
  with a b show ?thesis by simp
qed

subsection \<open>Filled orders and the engine\<close>

lemma fillBoth_other: "x \<noteq> p \<Longrightarrow> x \<noteq> mp \<Longrightarrow> fillBoth h p mp x = h x"
  by (simp add: fillBoth_def Let_def)

lemma fill_FILLED: "status (fill f x) = FILLED \<Longrightarrow> remainingQuantity (fill f x) = 0 \<or> status x = FILLED"
  by (auto simp: fill_def Let_def split: if_splits)

lemma fillBoth_not_FILLED:
  assumes "mp \<noteq> p" "\<not> isFilled (fillBoth h p mp mp)" "status (h mp) \<noteq> FILLED"
  shows "status (fillBoth h p mp mp) \<noteq> FILLED"
proof -
  from assms(1) have e: "fillBoth h p mp mp = fill (fillQty h p mp) (h mp)"
    by (simp add: fillBoth_def Let_def)
  with assms(2,3) fill_FILLED[of "fillQty h p mp" "h mp"] show ?thesis
    by (auto simp: isFilled_def)
qed

text \<open>The index through the sweep: an entry that stays is of an order that is not FILLED.\<close>

lemma queue_index:
  assumes "executeMatches_queue smb p q h om = (ts, q', h', om')"
  shows "(\<forall>oid x. om oid = Some x \<longrightarrow> x \<noteq> p \<and> orderId (h x) = oid \<and> status (h x) \<noteq> FILLED) \<Longrightarrow>
         (\<forall>oid x. om' oid = Some x \<longrightarrow> x \<noteq> p \<and> orderId (h' x) = oid \<and> status (h' x) \<noteq> FILLED)"
  using assms
proof (induction rule: queue_induct)
  case (Erase e q h om ts q' h' om')
  let ?h2 = "fillBoth h p (snd e)"
  have "\<forall>oid x. (om(orderId (h (snd e)) := None)) oid = Some x \<longrightarrow>
      x \<noteq> p \<and> orderId (?h2 x) = oid \<and> status (?h2 x) \<noteq> FILLED"
  proof (intro allI impI)
    fix oid x assume a: "(om(orderId (h (snd e)) := None)) oid = Some x"
    then have ne: "oid \<noteq> orderId (h (snd e))" and o: "om oid = Some x"
      by (auto split: if_splits)
    from Erase.prems o have x: "x \<noteq> p" "orderId (h x) = oid" "status (h x) \<noteq> FILLED" by blast+
    with ne have "x \<noteq> snd e" by auto
    with x fillBoth_other[of x p "snd e" h] show "x \<noteq> p \<and> orderId (?h2 x) = oid \<and> status (?h2 x) \<noteq> FILLED"
      by simp
  qed
  with Erase.IH show ?case by blast
next
  case (Keep e q h om ts q' h' om')
  let ?h2 = "fillBoth h p (snd e)"
  have "\<forall>oid x. om oid = Some x \<longrightarrow> x \<noteq> p \<and> orderId (?h2 x) = oid \<and> status (?h2 x) \<noteq> FILLED"
  proof (intro allI impI)
    fix oid x assume o: "om oid = Some x"
    from Keep.prems o have x: "x \<noteq> p" "orderId (h x) = oid" "status (h x) \<noteq> FILLED" by blast+
    show "x \<noteq> p \<and> orderId (?h2 x) = oid \<and> status (?h2 x) \<noteq> FILLED"
    proof (cases "x = snd e")
      case True
      with x Keep(2) fillBoth_not_FILLED[of "snd e" p h] show ?thesis by simp
    next
      case False
      with x fillBoth_other[of x p "snd e" h] show ?thesis by simp
    qed
  qed
  with Keep.IH show ?case by blast
qed simp_all

lemma levels_index:
  assumes "executeMatches_levels tooFar smb p fe m h om = (ts, m', h', om')"
  shows "(\<forall>oid x. om oid = Some x \<longrightarrow> x \<noteq> p \<and> orderId (h x) = oid \<and> status (h x) \<noteq> FILLED) \<Longrightarrow>
         (\<forall>oid x. om' oid = Some x \<longrightarrow> x \<noteq> p \<and> orderId (h' x) = oid \<and> status (h' x) \<noteq> FILLED)"
  using assms
proof (induction rule: levels_induct)
  case (Level kl m h om ts q h1 om1 ts' m' h2 om2)
  from queue_index[OF Level(3) Level.prems] Level.IH show ?case by blast
qed simp_all

text \<open>The store through the sweep: it changes at the incoming order and at queued orders.\<close>

lemma queue_store:
  assumes "executeMatches_queue smb p q h om = (ts, q', h', om')"
  shows "x \<noteq> p \<Longrightarrow> x \<notin> snd ` set q \<Longrightarrow> h' x = h x"
  using assms
  by (induction rule: queue_induct) (simp_all add: fillBoth_other)

lemma levels_store:
  assumes "executeMatches_levels tooFar smb p fe m h om = (ts, m', h', om')"
  shows "x \<noteq> p \<Longrightarrow> x \<notin> set (queued m) \<Longrightarrow> h' x = h x"
  using assms
proof (induction rule: levels_induct)
  case (Level kl m h om ts q h1 om1 ts' m' h2 om2)
  from queue_store[OF Level(3), of x] Level.prems Level.IH show ?case by simp
qed simp_all

lemma executeOpposite_index:
  assumes "executeOpposite p fe (b, h) = (ts, b0, h0)"
    and "\<forall>oid x. orderMap b oid = Some x \<longrightarrow> x \<noteq> p \<and> orderId (h x) = oid \<and> status (h x) \<noteq> FILLED"
  shows "\<forall>oid x. orderMap b0 oid = Some x \<longrightarrow> x \<noteq> p \<and> orderId (h0 x) = oid \<and> status (h0 x) \<noteq> FILLED"
proof (cases "side (h p) = BUY")
  case True
  obtain ts1 m h1 om1 where r: "executeMatches_levels askTooHigh (bookSymbol b) p fe (asks b) h (orderMap b)
      = (ts1, m, h1, om1)"
    using prod_cases4 by blast
  with assms(1) True have "orderMap b0 = om1" "h0 = h1"
    by (auto simp: executeOpposite_def executeMatches_asks_def)
  with levels_index[OF r assms(2)] show ?thesis by simp
next
  case False
  obtain ts1 m h1 om1 where r: "executeMatches_levels bidTooLow (bookSymbol b) p fe (bids b) h (orderMap b)
      = (ts1, m, h1, om1)"
    using prod_cases4 by blast
  with assms(1) False have "orderMap b0 = om1" "h0 = h1"
    by (auto simp: executeOpposite_def executeMatches_bids_def)
  with levels_index[OF r assms(2)] show ?thesis by simp
qed

lemma executeOpposite_store:
  assumes "executeOpposite p fe (b, h) = (ts, b0, h0)"
    and "x \<noteq> p" "x \<notin> set (queued (bids b) @ queued (asks b))"
  shows "h0 x = h x"
proof (cases "side (h p) = BUY")
  case True
  obtain ts1 m h1 om1 where r: "executeMatches_levels askTooHigh (bookSymbol b) p fe (asks b) h (orderMap b)
      = (ts1, m, h1, om1)"
    using prod_cases4 by blast
  with assms(1) True have "h0 = h1"
    by (simp_all add: executeOpposite_def executeMatches_asks_def)
  with levels_store[OF r, of x] assms(2,3) show ?thesis by simp
next
  case False
  obtain ts1 m h1 om1 where r: "executeMatches_levels bidTooLow (bookSymbol b) p fe (bids b) h (orderMap b)
      = (ts1, m, h1, om1)"
    using prod_cases4 by blast
  with assms(1) False have "h0 = h1"
    by (simp_all add: executeOpposite_def executeMatches_bids_def)
  with levels_store[OF r, of x] assms(2,3) show ?thesis by simp
qed

lemma queued_levels_put:
  "set (queued (levels_put prec k v m)) \<subseteq> snd ` set (orders v) \<union> set (queued m)"
proof (induction m)
  case Nil
  then show ?case by simp
next
  case (Cons a m)
  obtain k' v' where a: "a = (k', v')" by (cases a)
  with Cons show ?case by auto
qed

lemma queued_levels_at: "snd ` set (orders (levels_at m k)) \<subseteq> set (queued m)"
proof (cases "map_of m k")
  case None
  then show ?thesis by (simp add: levels_at_def emptyLevel_def)
next
  case (Some L)
  then have "(k, L) \<in> set m" by (rule map_of_SomeD)
  then have "snd ` set (orders L) \<subseteq> set (queued m)"
    by (force simp: queued_def)
  with Some show ?thesis by (simp add: levels_at_def)
qed

lemma queued_rest:
  "set (queued (levels_put prec k (PriceLevel_addOrder h p (levels_at m k)) m)) \<subseteq> insert p (set (queued m))"
  using queued_levels_put[of prec k "PriceLevel_addOrder h p (levels_at m k)" m] queued_levels_at[of m k]
  by (auto simp: PriceLevel_addOrder_def)

text \<open>\<open>matchOrder\<close> as a whole: the index, the queues and the store afterwards.\<close>

lemma matchOrder_index:
  assumes run: "matchOrder p (b, h) = (ts, b', h')"
    and idx: "\<forall>oid x. orderMap b oid = Some x \<longrightarrow> x \<noteq> p \<and> orderId (h x) = oid \<and> status (h x) \<noteq> FILLED"
  shows "\<forall>oid x. orderMap b' oid = Some x \<longrightarrow>
           orderId (h' x) = oid \<and> status (h' x) \<noteq> FILLED \<and> (x = p \<or> orderMap b oid = Some x)"
proof -
  obtain ts0 b0 h0 where f: "executeOpposite p False (b, h) = (ts0, b0, h0)"
    using prod_cases3 by blast
  obtain ts1 b1 h1 where t: "executeOpposite p True (b, h) = (ts1, b1, h1)"
    using prod_cases3 by blast
  note i0 = executeOpposite_index[OF f idx] and i1 = executeOpposite_index[OF t idx]
  note s0 = executeOpposite_shrinks[OF f] and s1 = executeOpposite_shrinks[OF t]
  have cancelled: "\<forall>oid x. orderMap b0 oid = Some x \<longrightarrow>
           orderId (g x) = oid \<and> status (g x) \<noteq> FILLED \<and> (x = p \<or> orderMap b oid = Some x)"
    if "g = (if 0 < remainingQuantity (h0 p) then h0(p := setStatus CANCELLED (h0 p)) else h0)" for g
    using that i0 s0 by auto
  have limit: ?thesis if l: "matchLimitOrder p (b, h) = (ts, b', h')"
  proof -
    from l f have h': "h' = h0" by (auto simp: matchLimitOrder_def split: if_splits)
    from l f have "orderMap b' = orderMap b0 \<or>
        (isActive (h0 p) \<and> orderMap b' = (orderMap b0)(orderId (h0 p) \<mapsto> p))"
      by (auto simp: matchLimitOrder_def split: if_splits)
    with i0 s0 h' show ?thesis by (auto simp: isActive_def split: if_splits)
  qed
  show ?thesis
  proof (cases "otype (h p)")
    case MARKET
    with run f have "b' = b0"
      "h' = (if 0 < remainingQuantity (h0 p) then h0(p := setStatus CANCELLED (h0 p)) else h0)"
      by (simp_all add: matchOrder_def matchMarketOrder_def)
    with cancelled show ?thesis by blast
  next
    case IOC
    with run f have "b' = b0"
      "h' = (if 0 < remainingQuantity (h0 p) then h0(p := setStatus CANCELLED (h0 p)) else h0)"
      by (simp_all add: matchOrder_def matchIOCOrder_def)
    with cancelled show ?thesis by blast
  next
    case FOK
    with run t have "(b' = b \<and> h' = h(p := setStatus CANCELLED (h p))) \<or> (b' = b1 \<and> h' = h1)"
      by (auto simp: matchOrder_def matchFOKOrder_def Let_def split: if_splits)
    with idx i1 s1 show ?thesis by auto
  next
    case LIMIT
    with run limit show ?thesis by (simp add: matchOrder_def)
  next
    case STOP_LOSS
    with run limit show ?thesis by (simp add: matchOrder_def)
  next
    case STOP_LIMIT
    with run limit show ?thesis by (simp add: matchOrder_def)
  qed
qed

lemma matchOrder_store:
  assumes run: "matchOrder p (b, h) = (ts, b', h')"
    and "x \<noteq> p" "x \<notin> set (queued (bids b) @ queued (asks b))"
  shows "h' x = h x"
proof -
  obtain ts0 b0 h0 where f: "executeOpposite p False (b, h) = (ts0, b0, h0)"
    using prod_cases3 by blast
  obtain ts1 b1 h1 where t: "executeOpposite p True (b, h) = (ts1, b1, h1)"
    using prod_cases3 by blast
  note s0 = executeOpposite_store[OF f assms(2,3)] and s1 = executeOpposite_store[OF t assms(2,3)]
  from run f t have "h' = h0 \<or> h' = h0(p := setStatus CANCELLED (h0 p)) \<or> h' = h1 \<or>
      h' = h(p := setStatus CANCELLED (h p))"
    by (cases "otype (h p)")
      (auto simp: matchOrder_def matchMarketOrder_def matchLimitOrder_def matchIOCOrder_def
        matchFOKOrder_def Let_def split: if_splits)
  with s0 s1 assms(2) show ?thesis by auto
qed

lemma matchLimitOrder_queued:
  assumes "matchLimitOrder p (b, h) = (ts, b', h')"
  shows "set (queued (bids b') @ queued (asks b')) \<subseteq> insert p (set (queued (bids b) @ queued (asks b)))"
proof -
  obtain ts0 b0 h0 where f: "executeOpposite p False (b, h) = (ts0, b0, h0)"
    using prod_cases3 by blast
  from executeOpposite_shrinks[OF f]
  have s0: "set (queued (bids b0)) \<subseteq> set (queued (bids b))"
    "set (queued (asks b0)) \<subseteq> set (queued (asks b))"
    by blast+
  from assms f have
    "b' = b0 \<or>
     (\<exists>k om. b' = b0\<lparr>bids := levels_put greaterP k (PriceLevel_addOrder h0 p (levels_at (bids b0) k)) (bids b0),
                       orderMap := om\<rparr>) \<or>
     (\<exists>k om. b' = b0\<lparr>asks := levels_put lessP k (PriceLevel_addOrder h0 p (levels_at (asks b0) k)) (asks b0),
                       orderMap := om\<rparr>)"
    by (auto simp: matchLimitOrder_def split: if_splits)
  then show ?thesis
  proof (elim disjE exE)
    assume "b' = b0"
    with s0 show ?thesis by auto
  next
    fix k om
    assume "b' = b0\<lparr>bids := levels_put greaterP k (PriceLevel_addOrder h0 p (levels_at (bids b0) k)) (bids b0),
                       orderMap := om\<rparr>"
    with s0 queued_rest[of greaterP k h0 p "bids b0"] show ?thesis by auto
  next
    fix k om
    assume "b' = b0\<lparr>asks := levels_put lessP k (PriceLevel_addOrder h0 p (levels_at (asks b0) k)) (asks b0),
                       orderMap := om\<rparr>"
    with s0 queued_rest[of lessP k h0 p "asks b0"] show ?thesis by auto
  qed
qed

lemma matchOrder_queued:
  assumes run: "matchOrder p (b, h) = (ts, b', h')"
  shows "set (queued (bids b') @ queued (asks b')) \<subseteq> insert p (set (queued (bids b) @ queued (asks b)))"
proof -
  obtain ts0 b0 h0 where f: "executeOpposite p False (b, h) = (ts0, b0, h0)"
    using prod_cases3 by blast
  obtain ts1 b1 h1 where t: "executeOpposite p True (b, h) = (ts1, b1, h1)"
    using prod_cases3 by blast
  note s0 = executeOpposite_shrinks[OF f] and s1 = executeOpposite_shrinks[OF t]
  show ?thesis
  proof (cases "otype (h p)")
    case MARKET
    with run f have "b' = b0" by (simp add: matchOrder_def matchMarketOrder_def)
    with s0 show ?thesis by auto
  next
    case IOC
    with run f have "b' = b0" by (simp add: matchOrder_def matchIOCOrder_def)
    with s0 show ?thesis by auto
  next
    case FOK
    with run t have "b' = b \<or> b' = b1"
      by (auto simp: matchOrder_def matchFOKOrder_def Let_def split: if_splits)
    with s1 show ?thesis by auto
  next
    case LIMIT
    with run matchLimitOrder_queued[of p b h ts b' h'] show ?thesis by (simp add: matchOrder_def)
  next
    case STOP_LOSS
    with run matchLimitOrder_queued[of p b h ts b' h'] show ?thesis by (simp add: matchOrder_def)
  next
    case STOP_LIMIT
    with run matchLimitOrder_queued[of p b h ts b' h'] show ?thesis by (simp add: matchOrder_def)
  qed
qed

lemma matchOrder_bookInv:
  assumes run: "matchOrder p (b, h) = (ts, b', h')"
    and inv: "bookInv p h smb b" and sym: "symbol (h p) = smb"
  shows "bookInv (Suc p) h' smb b'"
proof -
  from inv have idx: "\<forall>oid x. orderMap b oid = Some x \<longrightarrow>
      x \<noteq> p \<and> orderId (h x) = oid \<and> status (h x) \<noteq> FILLED"
    by (auto simp: bookInv_def)
  note i = matchOrder_index[OF run idx]
  note q = matchOrder_queued[OF run]
  have fr: "symbol (h' x) = symbol (h x)" for x
    using matchOrder_frame[OF run, of x] by simp
  have "\<forall>oid x. orderMap b' oid = Some x \<longrightarrow>
         x < Suc p \<and> orderId (h' x) = oid \<and> status (h' x) \<noteq> FILLED \<and> symbol (h' x) = smb"
  proof (intro allI impI)
    fix oid x assume a: "orderMap b' oid = Some x"
    with i have 1: "orderId (h' x) = oid" "status (h' x) \<noteq> FILLED" "x = p \<or> orderMap b oid = Some x"
      by blast+
    from 1(3) inv sym have "x < Suc p \<and> symbol (h x) = smb"
      by (auto simp: bookInv_def less_Suc_eq)
    with 1 fr show "x < Suc p \<and> orderId (h' x) = oid \<and> status (h' x) \<noteq> FILLED \<and> symbol (h' x) = smb"
      by simp
  qed
  moreover have "\<forall>x \<in> set (queued (bids b') @ queued (asks b')). x < Suc p \<and> symbol (h' x) = smb"
  proof
    fix x assume "x \<in> set (queued (bids b') @ queued (asks b'))"
    with q have "x = p \<or> x \<in> set (queued (bids b) @ queued (asks b))" by blast
    with inv sym have "x < Suc p \<and> symbol (h x) = smb" by (auto simp: bookInv_def less_Suc_eq)
    with fr show "x < Suc p \<and> symbol (h' x) = smb" by simp
  qed
  ultimately show ?thesis by (simp add: bookInv_def)
qed

text \<open>A book of another symbol shares no order with the book that is matched on.\<close>

lemma bookInv_other:
  assumes other: "bookInv n h smb2 b2"
    and same: "\<And>x. x < n \<Longrightarrow> symbol (h x) = smb2 \<Longrightarrow> g x = h x"
    and le: "n \<le> n'"
  shows "bookInv n' g smb2 b2"
  unfolding bookInv_def
proof (intro conjI allI impI ballI)
  fix oid x assume "orderMap b2 oid = Some x"
  with other have x: "x < n" "orderId (h x) = oid" "status (h x) \<noteq> FILLED" "symbol (h x) = smb2"
    unfolding bookInv_def by blast+
  with same[of x] le show "x < n'" "orderId (g x) = oid" "status (g x) \<noteq> FILLED" "symbol (g x) = smb2"
    by simp_all
next
  fix x assume "x \<in> set (queued (bids b2) @ queued (asks b2))"
  with other have x: "x < n" "symbol (h x) = smb2"
    unfolding bookInv_def by blast+
  with same[of x] le show "x < n'" "symbol (g x) = smb2"
    by simp_all
qed

lemma matchOrder_other_book:
  assumes run: "matchOrder p (b, h) = (ts, b', h')"
    and inv: "bookInv p h smb b" and sym: "symbol (h p) = smb"
    and other: "bookInv p h smb2 b2" and ne: "smb2 \<noteq> smb"
  shows "bookInv (Suc p) h' smb2 b2"
proof (rule bookInv_other[OF other])
  fix x assume "x < p" and x: "symbol (h x) = smb2"
  with ne sym have "x \<noteq> p" by auto
  moreover from x ne inv have "x \<notin> set (queued (bids b) @ queued (asks b))"
    by (auto simp: bookInv_def)
  ultimately show "h' x = h x" by (rule matchOrder_store[OF run])
qed simp

lemma modify_fields [simp]:
  "orderId (setQuantity q x) = orderId x" "symbol (setQuantity q x) = symbol x"
  "status (setQuantity q x) = status x"
  "orderId (setPrice k x) = orderId x" "symbol (setPrice k x) = symbol x"
  "status (setPrice k x) = status x"
  by (simp_all add: setQuantity_def setPrice_def)

lemma levels_erase_queued: "set (queued (levels_erase k m)) \<subseteq> set (queued m)"
  by (induction m) (auto simp: levels_erase_def)

lemma removeFromSide_queued:
  assumes "removeFromSide prec h oid pr m = Some m'"
  shows "set (queued m') \<subseteq> set (queued m)"
proof (cases "map_of m pr")
  case None
  with assms show ?thesis by (simp add: removeFromSide_def)
next
  case (Some lvl)
  from assms Some obtain lvl' where rm: "PriceLevel_removeOrder h oid lvl = Some lvl'"
    and m': "m' = (if isEmpty lvl' then levels_erase pr m else levels_put prec pr lvl' m)"
    by (auto simp: removeFromSide_def split: option.splits)
  from rm have "set (orders lvl') \<subseteq> set (orders lvl)"
    by (auto simp: PriceLevel_removeOrder_def split: option.splits)
  then have "snd ` set (orders lvl') \<subseteq> snd ` set (orders lvl)" by blast
  moreover from Some have "snd ` set (orders (levels_at m pr)) = snd ` set (orders lvl)"
    by (simp add: levels_at_def)
  ultimately have "snd ` set (orders lvl') \<subseteq> set (queued m)"
    using queued_levels_at[of m pr] by simp
  with m' queued_levels_put[of prec pr lvl' m] levels_erase_queued[of pr m] show ?thesis
    by (auto split: if_splits)
qed

lemma cancelOrder_bookInv:
  assumes run: "cancelOrder oid (b, h) = Some (r, b', h')" and inv: "bookInv n h smb b"
  shows "bookInv n h' smb b' \<and>
         (\<forall>x. symbol (h x) \<noteq> smb \<longrightarrow> h' x = h x) \<and>
         (\<forall>x. orderId (h' x) = orderId (h x) \<and> symbol (h' x) = symbol (h x)) \<and>
         (orderMap b oid = None \<longrightarrow> \<not> r \<and> b' = b \<and> h' = h)"
proof (cases "orderMap b oid")
  case None
  with run inv show ?thesis by (simp add: cancelOrder_def)
next
  case (Some p)
  let ?h1 = "h(p := setStatus CANCELLED (h p))"
  from inv Some have p: "symbol (h p) = smb" by (simp add: bookInv_def)
  from run Some have h': "h' = ?h1"
    by (auto simp: cancelOrder_def Let_def split: option.splits if_splits)
  from run Some have om: "orderMap b' = (orderMap b)(oid := None)"
    by (auto simp: cancelOrder_def Let_def split: option.splits if_splits)
  from run Some have "\<exists>prec m. (bids b' = bids b \<or> removeFromSide prec ?h1 oid (price (h p)) (bids b) = Some (bids b')) \<and>
      (asks b' = asks b \<or> removeFromSide prec ?h1 oid (price (h p)) (asks b) = Some (asks b'))"
    by (auto simp: cancelOrder_def Let_def split: option.splits if_splits)
  then have q: "set (queued (bids b')) \<subseteq> set (queued (bids b))"
    "set (queued (asks b')) \<subseteq> set (queued (asks b))"
    using removeFromSide_queued by (metis subset_refl)+
  have "bookInv n h' smb b'"
    unfolding bookInv_def
  proof (intro conjI allI impI ballI)
    fix k x assume "orderMap b' k = Some x"
    with om have "orderMap b k = Some x" by (auto split: if_splits)
    with inv have "x < n \<and> orderId (h x) = k \<and> status (h x) \<noteq> FILLED \<and> symbol (h x) = smb"
      by (simp add: bookInv_def)
    then show "x < n" "orderId (h' x) = k" "status (h' x) \<noteq> FILLED" "symbol (h' x) = smb"
      by (auto simp: h')
  next
    fix x assume "x \<in> set (queued (bids b') @ queued (asks b'))"
    with q have "x \<in> set (queued (bids b) @ queued (asks b))" by auto
    with inv have "x < n \<and> symbol (h x) = smb" by (simp add: bookInv_def)
    then show "x < n" "symbol (h' x) = smb" by (auto simp: h')
  qed
  with p Some show ?thesis by (auto simp: h')
qed

lemma modifyOrder_bookInv:
  assumes run: "modifyOrder oid pr qty (b, h) = Some (r, b', h')" and inv: "bookInv n h smb b"
  shows "bookInv n h' smb b' \<and>
         (\<forall>x. symbol (h x) \<noteq> smb \<longrightarrow> h' x = h x) \<and>
         (\<forall>x. orderId (h' x) = orderId (h x) \<and> symbol (h' x) = symbol (h x)) \<and>
         (orderMap b oid = None \<longrightarrow> \<not> r \<and> b' = b \<and> h' = h)"
proof (cases "orderMap b oid")
  case None
  with run inv show ?thesis by (simp add: modifyOrder_def)
next
  case (Some p)
  let ?h1 = "h(p := setStatus PENDING (setQuantity qty (setPrice pr (h p))))"
  from inv Some have p: "symbol (h p) = smb" by (simp add: bookInv_def)
  from run Some have h': "h' = ?h1"
    by (auto simp: modifyOrder_def Let_def split: option.splits if_splits)
  from run Some have om: "orderMap b' = orderMap b"
    by (auto simp: modifyOrder_def Let_def split: option.splits if_splits)
  from run Some have
    "(\<exists>m. removeFromSide greaterP h oid (price (h p)) (bids b) = Some m \<and> asks b' = asks b \<and>
          bids b' = levels_put greaterP pr (PriceLevel_addOrder ?h1 p (levels_at m pr)) m) \<or>
     (\<exists>m. removeFromSide lessP h oid (price (h p)) (asks b) = Some m \<and> bids b' = bids b \<and>
          asks b' = levels_put lessP pr (PriceLevel_addOrder ?h1 p (levels_at m pr)) m)"
    by (auto simp: modifyOrder_def Let_def split: option.splits if_splits)
  then have q: "set (queued (bids b') @ queued (asks b')) \<subseteq>
      insert p (set (queued (bids b) @ queued (asks b)))"
  proof (elim disjE exE conjE)
    fix m assume a: "removeFromSide greaterP h oid (price (h p)) (bids b) = Some m"
      "asks b' = asks b" "bids b' = levels_put greaterP pr (PriceLevel_addOrder ?h1 p (levels_at m pr)) m"
    from removeFromSide_queued[OF a(1)] queued_rest[of greaterP pr ?h1 p m] a(2,3)
    show ?thesis by auto
  next
    fix m assume a: "removeFromSide lessP h oid (price (h p)) (asks b) = Some m"
      "bids b' = bids b" "asks b' = levels_put lessP pr (PriceLevel_addOrder ?h1 p (levels_at m pr)) m"
    from removeFromSide_queued[OF a(1)] queued_rest[of lessP pr ?h1 p m] a(2,3)
    show ?thesis by auto
  qed
  have "bookInv n h' smb b'"
    unfolding bookInv_def
  proof (intro conjI allI impI ballI)
    fix k x assume "orderMap b' k = Some x"
    with om have "orderMap b k = Some x" by simp
    with inv have "x < n \<and> orderId (h x) = k \<and> status (h x) \<noteq> FILLED \<and> symbol (h x) = smb"
      by (simp add: bookInv_def)
    then show "x < n" "orderId (h' x) = k" "status (h' x) \<noteq> FILLED" "symbol (h' x) = smb"
      by (auto simp: h')
  next
    fix x assume "x \<in> set (queued (bids b') @ queued (asks b'))"
    with q have "x = p \<or> x \<in> set (queued (bids b) @ queued (asks b))" by blast
    with inv p Some have "x < n \<and> symbol (h x) = smb" by (auto simp: bookInv_def)
    then show "x < n" "symbol (h' x) = smb" by (auto simp: h')
  qed
  with p Some show ?thesis by (auto simp: h')
qed

lemma engineInv_init: "engineInv (newEngine h)"
  by (simp add: engineInv_def newEngine_def)

lemma word64_of_nat_inj:
  "a < 2 ^ 64 \<Longrightarrow> b < 2 ^ 64 \<Longrightarrow> (of_nat a :: 64 word) = of_nat b \<Longrightarrow> a = b"
  by (simp add: word_of_nat_eq_iff take_bit_nat_eq_self)

lemma word64_Suc_no_wrap:
  "n < 2 ^ 64 \<Longrightarrow> (of_nat (Suc n) :: 64 word) \<noteq> 0 \<Longrightarrow> Suc n < 2 ^ 64"
proof -
  assume n: "n < 2 ^ 64" and nz: "(of_nat (Suc n) :: 64 word) \<noteq> 0"
  have "Suc n \<noteq> 2 ^ 64"
  proof
    assume "Suc n = 2 ^ 64"
    then have "(of_nat (Suc n) :: 64 word) = of_nat (2 ^ 64)" by simp
    also have "\<dots> = 0" by simp
    finally show False using nz by simp
  qed
  with n show ?thesis by simp
qed

lemma bookInv_new: "bookInv n h smb (newOrderBook smb)"
  by (simp add: bookInv_def newOrderBook_def)

lemma engineInv_submit:
  assumes inv: "engineInv e" and nw: "nextOrderId e \<noteq> 0"
  shows "engineInv (snd (submitOrder smb sd ty pr qty cid stp e))"
proof -
  let ?n = "allocated e"
  let ?oid = "nextOrderId e"
  let ?h1 = "(store e)(?n := setClientId cid (newOrder ?oid smb sd ty pr qty stp))"
  let ?book = "case orderBooks e smb of None \<Rightarrow> newOrderBook smb | Some b \<Rightarrow> b"
  obtain ts b1 h2 where run: "matchOrder ?n (?book, ?h1) = (ts, b1, h2)"
    using prod_cases3 by blast
  from inv have n: "?n < 2 ^ 64" and nid: "?oid = of_nat (Suc ?n)"
    and ids: "\<forall>q < ?n. orderId (store e q) = of_nat (Suc q)"
    and books: "\<forall>s b. orderBooks e s = Some b \<longrightarrow> bookInv ?n (store e) s b"
    by (simp_all add: engineInv_def)
  have keep: "bookInv ?n ?h1 s b" if "bookInv ?n (store e) s b" for s b
    using that by (rule bookInv_other) simp_all
  have sym: "symbol (?h1 ?n) = smb" by (simp add: setClientId_def newOrder_def)
  have "bookInv ?n (store e) smb ?book"
    using books by (auto simp: bookInv_new split: option.splits)
  then have book: "bookInv ?n ?h1 smb ?book" by (rule keep)
  have e': "snd (submitOrder smb sd ty pr qty cid stp e) =
      e\<lparr>nextOrderId := ?oid + 1, totalOrders := totalOrders e + 1,
        allocated := Suc ?n, orderToSymbol := (orderToSymbol e)(?oid \<mapsto> smb),
        orderBooks := (orderBooks e)(smb \<mapsto> b1),
        totalTrades := totalTrades e + of_nat (length ts), store := h2\<rparr>"
    using run
    by (cases "orderBooks e smb") (simp_all add: submitOrder_def getOrCreateOrderBook_def Let_def)
  from nw have "(of_nat (Suc ?n) :: 64 word) \<noteq> 0" unfolding nid .
  with n have 1: "Suc ?n < 2 ^ 64" by (rule word64_Suc_no_wrap)
  have 2: "?oid + 1 = of_nat (Suc (Suc ?n))" using nid by simp
  have 3: "\<forall>q < Suc ?n. orderId (h2 q) = of_nat (Suc q)"
  proof (intro allI impI)
    fix q assume "q < Suc ?n"
    then have "orderId (?h1 q) = of_nat (Suc q)"
      using ids nid by (auto simp: less_Suc_eq setClientId_def newOrder_def)
    with matchOrder_frame[OF run, of q] show "orderId (h2 q) = of_nat (Suc q)" by simp
  qed
  have 4: "\<forall>s b. ((orderBooks e)(smb \<mapsto> b1)) s = Some b \<longrightarrow> bookInv (Suc ?n) h2 s b"
  proof (intro allI impI)
    fix s b assume a: "((orderBooks e)(smb \<mapsto> b1)) s = Some b"
    show "bookInv (Suc ?n) h2 s b"
    proof (cases "s = smb")
      case True
      with a have "b = b1" by simp
      with matchOrder_bookInv[OF run book sym] True show ?thesis by simp
    next
      case False
      with a books have "bookInv ?n (store e) s b" by simp
      then have "bookInv ?n ?h1 s b" by (rule keep)
      from matchOrder_other_book[OF run book sym this False] show ?thesis .
    qed
  qed
  from 1 2 3 4 show ?thesis
    unfolding e' engineInv_def by simp
qed

lemma engineInv_cancel:
  assumes inv: "engineInv e" and run: "Engine_cancelOrder oid e = Some (r, e')"
  shows "engineInv e'"
proof (cases "orderToSymbol e oid")
  case None
  with run inv show ?thesis by (simp add: Engine_cancelOrder_def)
next
  case (Some smb)
  show ?thesis
  proof (cases "orderBooks e smb")
    case None
    with Some run inv show ?thesis by (simp add: Engine_cancelOrder_def)
  next
    case b: (Some b)
    from run Some b obtain b1 h1 where c: "cancelOrder oid (b, store e) = Some (r, b1, h1)"
      and e': "e' = e\<lparr>orderBooks := (orderBooks e)(smb \<mapsto> b1), store := h1,
                       orderToSymbol := (if r then (orderToSymbol e)(oid := None) else orderToSymbol e)\<rparr>"
      by (auto simp: Engine_cancelOrder_def split: option.splits)
    from inv b have binv: "bookInv (allocated e) (store e) smb b" by (simp add: engineInv_def)
    note k = cancelOrder_bookInv[OF c binv]
    have "bookInv (allocated e) h1 s b2" if a: "((orderBooks e)(smb \<mapsto> b1)) s = Some b2" for s b2
    proof (cases "s = smb")
      case True
      with a k show ?thesis by simp
    next
      case False
      with a inv have "bookInv (allocated e) (store e) s b2" by (simp add: engineInv_def)
      then show ?thesis
        by (rule bookInv_other) (use k False in auto)
    qed
    with inv k show ?thesis
      unfolding e' engineInv_def by simp
  qed
qed

lemma engineInv_modify:
  assumes inv: "engineInv e" and run: "Engine_modifyOrder oid pr qty e = Some (r, e')"
  shows "engineInv e'"
proof (cases "orderToSymbol e oid")
  case None
  with run inv show ?thesis by (simp add: Engine_modifyOrder_def)
next
  case (Some smb)
  show ?thesis
  proof (cases "orderBooks e smb")
    case None
    with Some run inv show ?thesis by (simp add: Engine_modifyOrder_def)
  next
    case b: (Some b)
    from run Some b obtain b1 h1 where c: "modifyOrder oid pr qty (b, store e) = Some (r, b1, h1)"
      and e': "e' = e\<lparr>orderBooks := (orderBooks e)(smb \<mapsto> b1), store := h1\<rparr>"
      by (auto simp: Engine_modifyOrder_def split: option.splits)
    from inv b have binv: "bookInv (allocated e) (store e) smb b" by (simp add: engineInv_def)
    note k = modifyOrder_bookInv[OF c binv]
    have "bookInv (allocated e) h1 s b2" if a: "((orderBooks e)(smb \<mapsto> b1)) s = Some b2" for s b2
    proof (cases "s = smb")
      case True
      with a k show ?thesis by simp
    next
      case False
      with a inv have "bookInv (allocated e) (store e) s b2" by (simp add: engineInv_def)
      then show ?thesis
        by (rule bookInv_other) (use k False in auto)
    qed
    with inv k show ?thesis
      unfolding e' engineInv_def by simp
  qed
qed

lemma reachable_engineInv: "reachable e \<Longrightarrow> engineInv e"
proof (induction rule: reachable.induct)
  case (init h)
  show ?case by (rule engineInv_init)
next
  case (submit e smb sd ty pr qty cid stp)
  then show ?case by (simp add: engineInv_submit)
next
  case (cancel e oid r e')
  then show ?case using engineInv_cancel by blast
next
  case (modify e oid pr qty r e')
  then show ?case using engineInv_modify by blast
qed

lemma filled_not_indexed:
  assumes inv: "engineInv e" and q: "q < allocated e" and f: "status (store e q) = FILLED"
    and b: "orderBooks e smb = Some b"
  shows "orderMap b (orderId (store e q)) = None"
proof (rule ccontr)
  assume "orderMap b (orderId (store e q)) \<noteq> None"
  then obtain x where x: "orderMap b (orderId (store e q)) = Some x" by blast
  from inv b have "bookInv (allocated e) (store e) smb b" by (simp add: engineInv_def)
  with x have 1: "x < allocated e" "orderId (store e x) = orderId (store e q)"
    "status (store e x) \<noteq> FILLED"
    unfolding bookInv_def by blast+
  from inv have ids: "\<forall>y < allocated e. orderId (store e y) = of_nat (Suc y)"
    and n: "allocated e < 2 ^ 64"
    unfolding engineInv_def by blast+
  from ids q 1(1) have "orderId (store e q) = of_nat (Suc q)" "orderId (store e x) = of_nat (Suc x)"
    by blast+
  with 1(2) have "(of_nat (Suc x) :: 64 word) = of_nat (Suc q)" by simp
  moreover from n q 1(1) have "Suc q < 2 ^ 64" "Suc x < 2 ^ 64" by simp_all
  ultimately have "Suc x = Suc q" using word64_of_nat_inj by blast
  with 1(3) f show False by simp
qed

text \<open>
  C10. In every state of the engine reached before the id counter wraps around, an
  order the engine created that is FILLED (a status only \<open>fill\<close> sets, during matching)
  is indexed by no book: \<open>getOrder\<close> of the engine with its id returns null, and
  \<open>cancelOrder\<close> and \<open>modifyOrder\<close> return false and change nothing. In scenario S1
  the engine's \<open>orderToSymbol\<close> still holds the id of such an order.
\<close>

theorem C10_filled_order_is_gone:
  assumes "reachable e" and "q < allocated e" and "status (store e q) = FILLED"
  shows "Engine_getOrder (orderId (store e q)) e = None \<and>
         Engine_cancelOrder (orderId (store e q)) e = Some (False, e) \<and>
         Engine_modifyOrder (orderId (store e q)) pr qty e = Some (False, e)"
proof -
  let ?oid = "orderId (store e q)"
  from assms(1) have inv: "engineInv e" by (rule reachable_engineInv)
  note gone = filled_not_indexed[OF inv assms(2,3)]
  show ?thesis
  proof (cases "orderToSymbol e ?oid")
    case None
    then show ?thesis
      by (simp add: Engine_getOrder_def Engine_cancelOrder_def Engine_modifyOrder_def)
  next
    case (Some smb)
    show ?thesis
    proof (cases "orderBooks e smb")
      case None
      with Some show ?thesis
        by (simp add: Engine_getOrder_def Engine_cancelOrder_def Engine_modifyOrder_def)
    next
      case b: (Some b)
      from b have same: "(orderBooks e)(smb \<mapsto> b) = orderBooks e" by (rule map_upd_triv)
      from gone[OF b] Some b same show ?thesis
        by (simp add: Engine_getOrder_def Engine_cancelOrder_def Engine_modifyOrder_def
            getOrder_def cancelOrder_def modifyOrder_def)
    qed
  qed
qed

theorem C10_filled_order_is_gone_witness:
  "reachable filled_engine \<and> 0 < allocated filled_engine \<and>
   status (store filled_engine 0) = FILLED \<and> orderId (store filled_engine 0) = 1 \<and>
   orderToSymbol filled_engine 1 = Some ''AAPL'' \<and>
   Engine_getOrder 1 filled_engine = None \<and>
   Engine_cancelOrder 1 filled_engine = Some (False, filled_engine) \<and>
   Engine_modifyOrder 1 1500000 10 filled_engine = Some (False, filled_engine)"
proof -
  have n1: "nextOrderId (newEngine blank) \<noteq> 0" by (simp add: newEngine_def)
  have n2: "nextOrderId (snd (submitOrder ''AAPL'' SELL LIMIT 1500000 100 [] 0 (newEngine blank))) \<noteq> 0"
    by code_simp
  have r: "reachable filled_engine"
    unfolding filled_engine_def
    by (intro reachable.submit reachable.init n1 n2)
  have a: "0 < allocated filled_engine" "status (store filled_engine 0) = FILLED"
    "orderId (store filled_engine 0) = 1" "orderToSymbol filled_engine 1 = Some ''AAPL''"
    by code_simp+
  from C10_filled_order_is_gone[OF r a(1) a(2), of 1500000 10] a r show ?thesis by simp
qed

subsection \<open>Time priority\<close>
























end
